theory Spec2Isabelle
  imports Complex_Main "HOL-Library.Multiset" "HOL-Library.Char_ord" "HOL-Library.List_Lexorder"
begin

section \<open>Static configuration\<close>

text \<open>
  The shipping route optimizer is a single Python module. Port codes are Python strings,
  here \<open>string\<close>, ordered as Python orders them (by character code, a proper prefix
  first). Python floats are modelled as exact reals: rounding error, overflow, infinities
  and NaN are outside this development, so a statement below is about the arithmetic the
  code writes down, not about its IEEE evaluation. The module-level dictionaries are maps
  built from their items in the order the source writes them.
\<close>

record port =
  name :: string
  lat :: real
  lon :: real

definition PORTS_items :: "(string \<times> port) list" where
  "PORTS_items =
    [(''IDX'', \<lparr>name = ''Incheon'', lat = 374563 / 10000, lon = 1267052 / 10000\<rparr>),
     (''HKG'', \<lparr>name = ''Hong Kong'', lat = 223193 / 10000, lon = 1141694 / 10000\<rparr>),
     (''SIN'', \<lparr>name = ''Singapore'', lat = 13521 / 10000, lon = 1038198 / 10000\<rparr>),
     (''CNS'', \<lparr>name = ''CNS'', lat = 231167 / 10000, lon = 11325 / 100\<rparr>),
     (''SHA'', \<lparr>name = ''Shanghai'', lat = 312304 / 10000, lon = 1214737 / 10000\<rparr>),
     (''PTY'', \<lparr>name = ''Panama City'', lat = 89833 / 10000, lon = - (795167 / 10000)\<rparr>),
     (''LAX'', \<lparr>name = ''Los Angeles'', lat = 337405 / 10000, lon = - (1182775 / 10000)\<rparr>),
     (''DXB'', \<lparr>name = ''Dubai'', lat = 252532 / 10000, lon = 553657 / 10000\<rparr>)]"

definition PORTS :: "string \<rightharpoonup> port" where
  "PORTS = map_of PORTS_items"

type_synonym 'a graph = "'a \<rightharpoonup> 'a list"

definition ADJ_items :: "(string \<times> string list) list" where
  "ADJ_items =
    [(''IDX'', [''HKG'', ''SHA'']),
     (''HKG'', [''IDX'', ''SIN'', ''SHA'', ''DXB'']),
     (''SIN'', [''HKG'', ''SHA'', ''PTY'']),
     (''SHA'', [''IDX'', ''HKG'', ''SIN'', ''DXB'']),
     (''PTY'', [''SIN'', ''LAX'']),
     (''LAX'', [''PTY'', ''DXB'']),
     (''DXB'', [''HKG'', ''SHA'', ''LAX'']),
     (''CNS'', [''HKG'', ''SHA''])]"

definition ADJ :: "string graph" where
  "ADJ = map_of ADJ_items"

definition FUEL_PRICE_PER_KM :: real where
  "FUEL_PRICE_PER_KM = 12 / 100"

definition BASE_HANDLING_COST :: real where
  "BASE_HANDLING_COST = 500"

definition DEFAULT_VESSEL_SPEED_KMH :: real where
  "DEFAULT_VESSEL_SPEED_KMH = 20"

section \<open>Distances and the edge cache\<close>

text \<open>
  The exceptions the modelled code can raise, and the answer 400 of the JSON endpoint
  (\<open>InvalidPorts\<close>). A function that can raise returns \<open>error + 'a\<close>.
\<close>

datatype error = KeyError | ValueError | ZeroDivisionError | InvalidPorts

text \<open>\<open>math.radians\<close>, and \<open>math.sqrt\<close> with its domain error.\<close>

definition radians :: "real \<Rightarrow> real" where
  "radians x = x * (pi / 180)"

definition math_sqrt :: "real \<Rightarrow> error + real" where
  "math_sqrt x = (if x < 0 then Inl ValueError else Inr (sqrt x))"

text \<open>\<open>math.atan2(y, x)\<close>: the angle of the point \<open>(x, y)\<close>, in \<open>(-pi, pi]\<close>.\<close>

definition math_atan2 :: "real \<Rightarrow> real \<Rightarrow> real" where
  "math_atan2 y x =
     (if 0 < x then arctan (y / x)
      else if x < 0 then (if 0 \<le> y then arctan (y / x) + pi else arctan (y / x) - pi)
      else if 0 < y then pi / 2
      else if y < 0 then - (pi / 2)
      else 0)"

definition haversine_km :: "real \<Rightarrow> real \<Rightarrow> real \<Rightarrow> real \<Rightarrow> error + real" where
  "haversine_km lat1 lon1 lat2 lon2 =
     (let R = 6371;
          phi1 = radians lat1;
          phi2 = radians lat2;
          dphi = radians (lat2 - lat1);
          dlambda = radians (lon2 - lon1);
          a = (sin (dphi / 2))\<^sup>2 + cos phi1 * cos phi2 * (sin (dlambda / 2))\<^sup>2
      in case math_sqrt a of
           Inl e \<Rightarrow> Inl e
         | Inr sa \<Rightarrow>
             (case math_sqrt (1 - a) of
                Inl e \<Rightarrow> Inl e
              | Inr sb \<Rightarrow> Inr (R * (2 * math_atan2 sa sb))))"

text \<open>
  The dictionary \<open>compute_edge_info\<close> returns, with keys \<open>distance_km\<close> and
  \<open>time_h\<close>; \<open>PORTS[a]\<close> raises \<open>KeyError\<close> for an unknown code.
\<close>

record edge_info =
  distance_km :: real
  time_h :: real

type_synonym edges = "string \<times> string \<rightharpoonup> edge_info"

definition compute_edge_info :: "string \<Rightarrow> string \<Rightarrow> error + edge_info" where
  "compute_edge_info a b =
     (case PORTS a of
        None \<Rightarrow> Inl KeyError
      | Some pa \<Rightarrow>
          (case PORTS b of
             None \<Rightarrow> Inl KeyError
           | Some pb \<Rightarrow>
               (case haversine_km (lat pa) (lon pa) (lat pb) (lon pb) of
                  Inl e \<Rightarrow> Inl e
                | Inr d \<Rightarrow>
                    Inr \<lparr>distance_km = d, time_h = d / DEFAULT_VESSEL_SPEED_KMH\<rparr>)))"

text \<open>\<open>tuple(sorted((u, v)))\<close>\<close>

definition edge_key :: "string \<Rightarrow> string \<Rightarrow> string \<times> string" where
  "edge_key u v = (if v < u then (v, u) else (u, v))"

text \<open>
  The module-level loops that fill \<open>EDGES\<close>: the inner loop over the neighbours of
  \<open>u\<close>, the outer loop over \<open>ADJ.items()\<close>. An exception would abort the import of
  the module; \<open>EDGES\<close> is the dictionary the loops leave.
\<close>

fun edges_for_nbrs :: "string \<Rightarrow> string list \<Rightarrow> edges \<Rightarrow> error + edges" where
  "edges_for_nbrs u [] E = Inr E"
| "edges_for_nbrs u (v # nbrs) E =
     (case E (edge_key u v) of
        Some info \<Rightarrow> edges_for_nbrs u nbrs E
      | None \<Rightarrow>
          (case compute_edge_info u v of
             Inl e \<Rightarrow> Inl e
           | Inr info \<Rightarrow> edges_for_nbrs u nbrs (E(edge_key u v \<mapsto> info))))"

fun edges_for_items :: "(string \<times> string list) list \<Rightarrow> edges \<Rightarrow> error + edges" where
  "edges_for_items [] E = Inr E"
| "edges_for_items ((u, nbrs) # items) E =
     (case edges_for_nbrs u nbrs E of
        Inl e \<Rightarrow> Inl e
      | Inr E' \<Rightarrow> edges_for_items items E')"

definition EDGES_init :: "error + edges" where
  "EDGES_init = edges_for_items ADJ_items Map.empty"

definition EDGES :: edges where
  "EDGES = (case EDGES_init of Inr E \<Rightarrow> E | Inl e \<Rightarrow> Map.empty)"

section \<open>Path enumeration\<close>

text \<open>\<open>graph.get(node, [])\<close>: a node that is not a key has no neighbours.\<close>

definition graph_get :: "'a graph \<Rightarrow> 'a \<Rightarrow> 'a list" where
  "graph_get graph node = (case graph node of None \<Rightarrow> [] | Some nbrs \<Rightarrow> nbrs)"

text \<open>
  The body of \<open>for nbr in graph.get(node, [])\<close>. The Python stack is a list whose top is
  its last element; here the top is the head, so \<open>stack.append(x)\<close> is \<open>x # stack\<close> and
  \<open>stack.pop()\<close> takes the head. The loop returns the paths it yields, in order, and the
  stack it leaves.
\<close>

fun for_nbrs ::
  "'a \<Rightarrow> 'a list \<Rightarrow> 'a list \<Rightarrow> ('a \<times> 'a list) list \<Rightarrow> 'a list list \<times> ('a \<times> 'a list) list"
where
  "for_nbrs dest path [] stack = ([], stack)"
| "for_nbrs dest path (nbr # nbrs) stack =
     (if nbr \<in> set path then for_nbrs dest path nbrs stack
      else if nbr = dest then
        (case for_nbrs dest path nbrs stack of
           (out, stack') \<Rightarrow> ((path @ [nbr]) # out, stack'))
      else for_nbrs dest path nbrs ((nbr, path @ [nbr]) # stack))"

lemma for_nbrs_stack:
  "\<exists>new. snd (for_nbrs dest path nbrs stack) = new @ stack \<and>
     (\<forall>(n, p) \<in> set new. p = path @ [n] \<and> n \<notin> set path \<and> n \<in> set nbrs \<and> n \<noteq> dest)"
proof (induction nbrs arbitrary: stack)
  case Nil
  show ?case by simp
next
  case (Cons nbr nbrs)
  show ?case
  proof (cases "nbr \<in> set path")
    case True
    with Cons.IH [of stack] show ?thesis by auto
  next
    case False
    show ?thesis
    proof (cases "nbr = dest")
      case True
      with False Cons.IH [of stack] show ?thesis
        by (auto split: prod.splits)
    next
      case ne: False
      from Cons.IH [of "(nbr, path @ [nbr]) # stack"]
      obtain new where new:
        "snd (for_nbrs dest path nbrs ((nbr, path @ [nbr]) # stack))
           = new @ (nbr, path @ [nbr]) # stack"
        "\<forall>(n, p) \<in> set new. p = path @ [n] \<and> n \<notin> set path \<and> n \<in> set nbrs \<and> n \<noteq> dest"
        by blast
      have "snd (for_nbrs dest path (nbr # nbrs) stack) = (new @ [(nbr, path @ [nbr])]) @ stack"
        using False ne new(1) by simp
      moreover have "\<forall>(n, p) \<in> set (new @ [(nbr, path @ [nbr])]).
          p = path @ [n] \<and> n \<notin> set path \<and> n \<in> set (nbr # nbrs) \<and> n \<noteq> dest"
        using False ne new(2) by auto
      ultimately show ?thesis by blast
    qed
  qed
qed

lemma for_nbrs_out:
  "q \<in> set (fst (for_nbrs dest path nbrs stack)) \<Longrightarrow>
     q = path @ [dest] \<and> dest \<notin> set path \<and> dest \<in> set nbrs"
proof (induction nbrs arbitrary: stack)
  case Nil
  then show ?case by simp
next
  case (Cons nbr nbrs)
  show ?case
  proof (cases "nbr \<in> set path")
    case True
    with Cons.prems Cons.IH [of stack] show ?thesis by simp
  next
    case False
    show ?thesis
    proof (cases "nbr = dest")
      case True
      obtain out stack' where r: "for_nbrs dest path nbrs stack = (out, stack')"
        by (cases "for_nbrs dest path nbrs stack")
      with False True Cons.prems have "q = path @ [dest] \<or> q \<in> set out" by auto
      with Cons.IH [of stack] r False True show ?thesis by auto
    next
      case ne: False
      with False Cons.prems Cons.IH [of "(nbr, path @ [nbr]) # stack"] show ?thesis by simp
    qed
  qed
qed

text \<open>
  The loop's variant: how many more nodes a stack entry's path can take before the hop check
  drops it. A popped entry is dropped or replaced by entries with a smaller value.
\<close>

definition hops_left :: "int \<Rightarrow> 'a \<times> 'a list \<Rightarrow> nat" where
  "hops_left max_hops e = nat (max_hops + 2 - int (length (snd e)))"

text \<open>
  The \<open>while stack:\<close> loop of the generator; the result is the list of the paths it
  yields, in the order it yields them. \<open>max_hops\<close> is a Python integer.
\<close>

function esp_loop :: "'a graph \<Rightarrow> 'a \<Rightarrow> int \<Rightarrow> ('a \<times> 'a list) list \<Rightarrow> 'a list list" where
  "esp_loop graph dest max_hops [] = []"
| "esp_loop graph dest max_hops ((node, path) # stack) =
     (if int (length path) - 1 > max_hops then esp_loop graph dest max_hops stack
      else fst (for_nbrs dest path (graph_get graph node) stack)
           @ esp_loop graph dest max_hops
               (snd (for_nbrs dest path (graph_get graph node) stack)))"
  by pat_completeness auto

termination esp_loop
proof (relation "inv_image (mult {(x :: nat, y). x < y})
    (\<lambda>(graph, dest, max_hops, stack). mset (map (hops_left max_hops) stack))")
  show "wf (inv_image (mult {(x :: nat, y). x < y})
    (\<lambda>(graph :: 'a graph, dest :: 'a, max_hops, stack). mset (map (hops_left max_hops) stack)))"
    by (intro wf_inv_image wf_mult) (rule wf_less)
next
  fix graph :: "'a graph" and dest node :: 'a and max_hops :: int
    and path :: "'a list" and stack :: "('a \<times> 'a list) list"
  have "(mset (map (hops_left max_hops) stack) + {#},
         mset (map (hops_left max_hops) stack) + {#hops_left max_hops (node, path)#})
          \<in> mult {(x, y). x < y}"
    by (rule one_step_implies_mult) auto
  then show "((graph, dest, max_hops, stack), graph, dest, max_hops, (node, path) # stack)
      \<in> inv_image (mult {(x, y). x < y})
          (\<lambda>(graph, dest, max_hops, stack). mset (map (hops_left max_hops) stack))"
    by simp
next
  fix graph :: "'a graph" and dest node :: 'a and max_hops :: int
    and path :: "'a list" and stack :: "('a \<times> 'a list) list"
  assume le: "\<not> max_hops < int (length path) - 1"
  obtain new where new:
    "snd (for_nbrs dest path (graph_get graph node) stack) = new @ stack"
    "\<forall>(n, p) \<in> set new. p = path @ [n] \<and> n \<notin> set path
        \<and> n \<in> set (graph_get graph node) \<and> n \<noteq> dest"
    using for_nbrs_stack [of dest path "graph_get graph node" stack] by blast
  have "\<forall>k \<in> set_mset (mset (map (hops_left max_hops) new)).
          \<exists>j \<in> set_mset {#hops_left max_hops (node, path)#}. (k, j) \<in> {(x, y). x < y}"
    using new(2) le by (auto simp: hops_left_def)
  then have "(mset (map (hops_left max_hops) stack) + mset (map (hops_left max_hops) new),
         mset (map (hops_left max_hops) stack) + {#hops_left max_hops (node, path)#})
          \<in> mult {(x, y). x < y}"
    by (intro one_step_implies_mult) simp_all
  moreover have "mset (map (hops_left max_hops) (new @ stack))
      = mset (map (hops_left max_hops) stack) + mset (map (hops_left max_hops) new)"
    by simp
  moreover have "mset (map (hops_left max_hops) ((node, path) # stack))
      = mset (map (hops_left max_hops) stack) + {#hops_left max_hops (node, path)#}"
    by simp
  ultimately have "(mset (map (hops_left max_hops) (new @ stack)),
      mset (map (hops_left max_hops) ((node, path) # stack))) \<in> mult {(x, y). x < y}"
    by (simp only:)
  then show "((graph, dest, max_hops, snd (for_nbrs dest path (graph_get graph node) stack)),
        graph, dest, max_hops, (node, path) # stack)
      \<in> inv_image (mult {(x, y). x < y})
          (\<lambda>(graph, dest, max_hops, stack). mset (map (hops_left max_hops) stack))"
    by (simp only: new(1) in_inv_image prod.case)
qed

definition enumerate_simple_paths :: "'a graph \<Rightarrow> 'a \<Rightarrow> 'a \<Rightarrow> int \<Rightarrow> 'a list list" where
  "enumerate_simple_paths graph source dest max_hops =
     esp_loop graph dest max_hops [(source, [source])]"

section \<open>Cost and time of a path\<close>

text \<open>The dictionary \<open>path_cost_and_time\<close> returns.\<close>

record score =
  cost :: real
  time_h :: real

text \<open>\<open>round(x, 2)\<close>: to the nearest multiple of 1/100, a tie going to the even one.\<close>

definition py_round2 :: "real \<Rightarrow> real" where
  "py_round2 x =
     (let y = x * 100;
          f = \<lfloor>y\<rfloor>;
          r = y - of_int f
      in of_int (if r < 1 / 2 then f
                 else if 1 / 2 < r then f + 1
                 else if even f then f else f + 1) / 100)"

text \<open>\<open>for node in path: total_cost += port_handling_overrides.get(node, BASE_HANDLING_COST)\<close>\<close>

fun handling_loop :: "(string \<rightharpoonup> real) \<Rightarrow> string list \<Rightarrow> real \<Rightarrow> real" where
  "handling_loop port_handling_overrides [] total_cost = total_cost"
| "handling_loop port_handling_overrides (node # rest) total_cost =
     handling_loop port_handling_overrides rest
       (total_cost + (case port_handling_overrides node of
                        None \<Rightarrow> BASE_HANDLING_COST
                      | Some handling \<Rightarrow> handling))"

text \<open>\<open>info = EDGES.get(key)\<close>, computed directly when the pair is not cached.\<close>

definition edge_info_for :: "string \<Rightarrow> string \<Rightarrow> error + edge_info" where
  "edge_info_for a b =
     (case EDGES (edge_key a b) of
        Some info \<Rightarrow> Inr info
      | None \<Rightarrow> compute_edge_info a b)"

text \<open>
  \<open>for i in range(len(path)-1)\<close> visits the consecutive pairs \<open>path[i], path[i+1]\<close> in
  order; the recursion takes them from the front. The state is
  \<open>(total_cost, total_time)\<close>. Dividing by a zero speed raises.
\<close>

fun edge_loop ::
  "real \<Rightarrow> real \<Rightarrow> real \<Rightarrow> string list \<Rightarrow> real \<times> real \<Rightarrow> error + real \<times> real"
where
  "edge_loop vessel_capacity speed_kmh fuel_price_per_km (a # b # rest) (total_cost, total_time) =
     (case edge_info_for a b of
        Inl e \<Rightarrow> Inl e
      | Inr info \<Rightarrow>
          (let d = distance_km info;
               capacity_factor = max (1 / 2) (vessel_capacity / 1000);
               edge_cost = d * fuel_price_per_km * capacity_factor
           in if speed_kmh = 0 then Inl ZeroDivisionError
              else edge_loop vessel_capacity speed_kmh fuel_price_per_km (b # rest)
                     (total_cost + edge_cost, total_time + d / speed_kmh)))"
| "edge_loop vessel_capacity speed_kmh fuel_price_per_km path totals = Inr totals"

definition path_cost_and_time ::
  "string list \<Rightarrow> real \<Rightarrow> (string \<rightharpoonup> real) \<Rightarrow> real \<Rightarrow> real \<Rightarrow> error + score"
where
  "path_cost_and_time path vessel_capacity port_handling_overrides speed_kmh fuel_price_per_km =
     (case edge_loop vessel_capacity speed_kmh fuel_price_per_km path
             (handling_loop port_handling_overrides path 0, 0) of
        Inl e \<Rightarrow> Inl e
      | Inr (total_cost, total_time) \<Rightarrow>
          Inr \<lparr>cost = py_round2 total_cost, time_h = py_round2 total_time\<rparr>)"

section \<open>The two endpoints\<close>

text \<open>
  A candidate is the dictionary with keys \<open>path\<close>, \<open>cost\<close> and \<open>time_h\<close>; the
  answer holds \<open>best\<close> and \<open>all\<close>. The endpoints are modelled from the point where the
  request's numeric fields have been converted by \<open>float\<close>; the HTML and JSON rendering of
  the answer is left out.
\<close>

record candidate = score +
  path :: "string list"

record response =
  best :: "candidate option"
  all :: "candidate list"

text \<open>
  The loop \<open>for path in enumerate_simple_paths(...)\<close> of both endpoints, with the deadline
  test; \<open>candidates.append\<close> adds at the end.
\<close>

fun candidates_loop ::
  "real \<Rightarrow> (string \<rightharpoonup> real) \<Rightarrow> real \<Rightarrow> real \<Rightarrow> real \<Rightarrow> string list list \<Rightarrow> candidate list
     \<Rightarrow> error + candidate list"
where
  "candidates_loop capacity overrides speed fuel_price deadline [] candidates = Inr candidates"
| "candidates_loop capacity overrides speed fuel_price deadline (p # paths) candidates =
     (case path_cost_and_time p capacity overrides speed fuel_price of
        Inl e \<Rightarrow> Inl e
      | Inr info \<Rightarrow>
          if time_h info \<le> deadline
          then candidates_loop capacity overrides speed fuel_price deadline paths
                 (candidates @ [\<lparr>cost = cost info, time_h = time_h info, path = p\<rparr>])
          else candidates_loop capacity overrides speed fuel_price deadline paths candidates)"

text \<open>
  \<open>/api/optimize\<close>. A missing \<open>origin\<close> or \<open>destination\<close> is \<open>None\<close> in Python, which
  is not a key of \<open>PORTS\<close> and is answered like an unknown code. \<open>sorted\<close> is stable, as
  \<open>sort_key\<close> is.
\<close>

definition api_optimize ::
  "string \<Rightarrow> string \<Rightarrow> real \<Rightarrow> real \<Rightarrow> real \<Rightarrow> real \<Rightarrow> (string \<rightharpoonup> real) \<Rightarrow> error + response"
where
  "api_optimize origin destination capacity speed deadline fuel_price overrides =
     (if PORTS origin = None \<or> PORTS destination = None then Inl InvalidPorts
      else
        case candidates_loop capacity overrides speed fuel_price deadline
               (enumerate_simple_paths ADJ origin destination 6) [] of
          Inl e \<Rightarrow> Inl e
        | Inr candidates \<Rightarrow>
            (let candidates_sorted = sort_key cost candidates;
                 best = (if candidates_sorted \<noteq> [] then Some (candidates_sorted ! 0) else None)
             in Inr \<lparr>best = best, all = candidates_sorted\<rparr>))"

text \<open>
  The form endpoint parses the overrides from a string. \<open>s.split(sep)\<close> for a
  one-character separator gives one more part than there are separators.
\<close>

fun split :: "char \<Rightarrow> string \<Rightarrow> string list" where
  "split sep [] = [[]]"
| "split sep (c # cs) =
     (if c = sep then [] # split sep cs
      else (case split sep cs of
              [] \<Rightarrow> [[c]]
            | part # parts \<Rightarrow> (c # part) # parts))"

text \<open>
  \<open>str.strip\<close> and \<open>str.upper\<close> on ASCII text: the whitespace characters of Python below
  code 128, and the letters a to z. Characters beyond ASCII are not modelled.
\<close>

definition isspace :: "char \<Rightarrow> bool" where
  "isspace c \<longleftrightarrow> c \<in> set [CHR 0x09, CHR 0x0A, CHR 0x0B, CHR 0x0C, CHR 0x0D,
                            CHR 0x1C, CHR 0x1D, CHR 0x1E, CHR 0x1F, CHR 0x20]"

definition strip :: "string \<Rightarrow> string" where
  "strip s = rev (dropWhile isspace (rev (dropWhile isspace s)))"

definition upper :: "string \<Rightarrow> string" where
  "upper s = map (\<lambda>c. if CHR ''a'' \<le> c \<and> c \<le> CHR ''z''
                        then char_of (of_char c - (32::nat)) else c) s"

text \<open>
  Python's \<open>float\<close> on a string of ASCII characters; \<open>None\<close> is \<open>ValueError\<close>. The
  string is stripped of the six ASCII whitespace characters that \<open>float\<close> skips (the
  separators 0x1C to 0x1F, which \<open>str.strip\<close> removes, are not among them). What remains
  is an optional sign and a decimal number: digits with an optional point and fractional
  digits, or a point followed by digits, then an optional exponent \<open>e\<close> or \<open>E\<close> with an
  optional sign and digits; inside a run of digits single underscores may separate digits.
  The value is the exact real the literal denotes. The literals \<open>inf\<close>, \<open>infinity\<close> and
  \<open>nan\<close>, which Python converts to floats that are not numbers, have no real value and are
  not modelled (nor are digits beyond ASCII); no statement below uses them. The parser of
  the overrides takes the conversion as a parameter, so what is proved of it in general
  holds for any conversion; \<open>float_decimal\<close> serves for concrete inputs.
\<close>

definition float_space :: "char \<Rightarrow> bool" where
  "float_space c \<longleftrightarrow> c \<in> set [CHR 0x09, CHR 0x0A, CHR 0x0B, CHR 0x0C, CHR 0x0D, CHR 0x20]"

definition is_digit :: "char \<Rightarrow> bool" where
  "is_digit c \<longleftrightarrow> CHR ''0'' \<le> c \<and> c \<le> CHR ''9''"

definition digit_val :: "char \<Rightarrow> nat" where
  "digit_val c = of_char c - 48"

fun digits_from :: "nat \<Rightarrow> string \<Rightarrow> nat option" where
  "digits_from acc [] = Some acc"
| "digits_from acc [c] = (if is_digit c then Some (10 * acc + digit_val c) else None)"
| "digits_from acc (c # d # cs) =
     (if is_digit c then digits_from (10 * acc + digit_val c) (d # cs)
      else if c = CHR ''_'' \<and> is_digit d then digits_from (10 * acc + digit_val d) cs
      else None)"

definition digit_part :: "string \<Rightarrow> nat option" where
  "digit_part s =
     (case s of
        [] \<Rightarrow> None
      | c # cs \<Rightarrow> if is_digit c then digits_from (digit_val c) cs else None)"

definition opt_digit_part :: "string \<Rightarrow> nat option" where
  "opt_digit_part s = (if s = [] then Some 0 else digit_part s)"

definition mantissa :: "string \<Rightarrow> real option" where
  "mantissa s =
     (case split CHR ''.'' s of
        [ip] \<Rightarrow> map_option real (digit_part ip)
      | [ip, fp] \<Rightarrow>
          if ip = [] \<and> fp = [] then None
          else (case (opt_digit_part ip, opt_digit_part fp) of
                  (Some i, Some f) \<Rightarrow> Some (real i + real f / 10 ^ length (filter is_digit fp))
                | _ \<Rightarrow> None)
      | _ \<Rightarrow> None)"

definition signed_part :: "string \<Rightarrow> bool \<times> string" where
  "signed_part s =
     (if s \<noteq> [] \<and> hd s = CHR ''-'' then (True, tl s)
      else if s \<noteq> [] \<and> hd s = CHR ''+'' then (False, tl s)
      else (False, s))"

definition is_e :: "char \<Rightarrow> bool" where
  "is_e c \<longleftrightarrow> c = CHR ''e'' \<or> c = CHR ''E''"

definition unsigned_decimal :: "string \<Rightarrow> real option" where
  "unsigned_decimal s =
     (let m = takeWhile (\<lambda>c. \<not> is_e c) s;
          rest = dropWhile (\<lambda>c. \<not> is_e c) s
      in if rest = [] then mantissa m
         else (case (mantissa m, signed_part (tl rest)) of
                 (Some x, (neg, ds)) \<Rightarrow>
                   (case digit_part ds of
                      None \<Rightarrow> None
                    | Some e \<Rightarrow> Some (if neg then x / 10 ^ e else x * 10 ^ e))
               | (None, _) \<Rightarrow> None))"

definition float_decimal :: "string \<Rightarrow> real option" where
  "float_decimal s =
     (case signed_part (rev (dropWhile float_space (rev (dropWhile float_space s)))) of
        (neg, u) \<Rightarrow> if neg then map_option uminus (unsigned_decimal u) else unsigned_decimal u)"

text \<open>
  One pass of the body of \<open>for part in overrides_raw.split(',')\<close>: \<open>k, v = part.split(':')\<close>
  raises unless there are exactly two pieces, and \<open>float(v)\<close> may raise; \<open>None\<close> stands for
  either exception.
\<close>

definition parse_part :: "(string \<Rightarrow> real option) \<Rightarrow> string \<Rightarrow> (string \<times> real) option" where
  "parse_part float part =
     (case split CHR '':'' part of
        [k, v] \<Rightarrow> (case float v of None \<Rightarrow> None | Some x \<Rightarrow> Some (upper (strip k), x))
      | _ \<Rightarrow> None)"

text \<open>
  The \<open>try\<close> encloses the whole \<open>for\<close> loop, so the first exception leaves the loop
  and \<open>except Exception: pass\<close> keeps the dictionary as it is at that moment.
\<close>

fun overrides_loop ::
  "(string \<Rightarrow> real option) \<Rightarrow> string list \<Rightarrow> (string \<rightharpoonup> real) \<Rightarrow> (string \<rightharpoonup> real)"
where
  "overrides_loop float [] overrides = overrides"
| "overrides_loop float (part # parts) overrides =
     (case parse_part float part of
        None \<Rightarrow> overrides
      | Some (k, v) \<Rightarrow> overrides_loop float parts (overrides(k \<mapsto> v)))"

definition parse_overrides :: "(string \<Rightarrow> real option) \<Rightarrow> string \<Rightarrow> (string \<rightharpoonup> real)" where
  "parse_overrides float raw =
     (let overrides_raw = strip raw
      in if overrides_raw \<noteq> [] then overrides_loop float (split CHR '','' overrides_raw) Map.empty
         else Map.empty)"

text \<open>\<open>/optimize\<close>: no check of the port codes; the overrides come as a string.\<close>

definition optimize ::
  "(string \<Rightarrow> real option) \<Rightarrow> string \<Rightarrow> string \<Rightarrow> real \<Rightarrow> real \<Rightarrow> real \<Rightarrow> real \<Rightarrow> string
     \<Rightarrow> error + response"
where
  "optimize float origin destination capacity speed deadline fuel_price overrides_raw =
     (let overrides = parse_overrides float overrides_raw
      in case candidates_loop capacity overrides speed fuel_price deadline
                (enumerate_simple_paths ADJ origin destination 6) [] of
           Inl e \<Rightarrow> Inl e
         | Inr candidates \<Rightarrow>
             (let candidates_sorted = sort_key cost candidates;
                  best = (if candidates_sorted \<noteq> [] then Some (candidates_sorted ! 0) else None)
              in Inr \<lparr>best = best, all = candidates_sorted\<rparr>))"

section \<open>Notions the statements use\<close>

text \<open>
  A node is absent from a graph when it is neither a key of the adjacency dictionary nor
  listed among the neighbours of any key.
\<close>

definition absent :: "'a graph \<Rightarrow> 'a \<Rightarrow> bool" where
  "absent graph n \<longleftrightarrow> n \<notin> dom graph \<and> (\<forall>nbrs \<in> ran graph. n \<notin> set nbrs)"

text \<open>
  The value of the local variable \<open>a\<close> of \<open>haversine_km\<close>, and the great-circle distance
  as a total function of four reals.
\<close>

definition haversine_a :: "real \<Rightarrow> real \<Rightarrow> real \<Rightarrow> real \<Rightarrow> real" where
  "haversine_a lat1 lon1 lat2 lon2 =
     (let phi1 = radians lat1;
          phi2 = radians lat2;
          dphi = radians (lat2 - lat1);
          dlambda = radians (lon2 - lon1)
      in (sin (dphi / 2))\<^sup>2 + cos phi1 * cos phi2 * (sin (dlambda / 2))\<^sup>2)"

definition great_circle_km :: "real \<Rightarrow> real \<Rightarrow> real \<Rightarrow> real \<Rightarrow> real" where
  "great_circle_km lat1 lon1 lat2 lon2 =
     6371 * (2 * math_atan2 (sqrt (haversine_a lat1 lon1 lat2 lon2))
                            (sqrt (1 - haversine_a lat1 lon1 lat2 lon2)))"

text \<open>The distance between two ports of the table (0 when a code is unknown).\<close>

definition port_distance :: "string \<Rightarrow> string \<Rightarrow> real" where
  "port_distance a b =
     (case PORTS a of
        None \<Rightarrow> 0
      | Some pa \<Rightarrow>
          (case PORTS b of
             None \<Rightarrow> 0
           | Some pb \<Rightarrow> great_circle_km (lat pa) (lon pa) (lat pb) (lon pb)))"

text \<open>
  The cost model in the words of its description: the handling cost of a node (its override
  if it has one, else 500), the consecutive pairs of a path, the capacity factor, and the
  candidate these give for a path.
\<close>

definition handling_cost :: "(string \<rightharpoonup> real) \<Rightarrow> string \<Rightarrow> real" where
  "handling_cost overrides node = (case overrides node of None \<Rightarrow> 500 | Some h \<Rightarrow> h)"

definition consecutive :: "'a list \<Rightarrow> ('a \<times> 'a) list" where
  "consecutive pth = zip pth (tl pth)"

definition capacity_factor_of :: "real \<Rightarrow> real" where
  "capacity_factor_of capacity = max (1 / 2) (capacity / 1000)"

text \<open>
  Rounding to two decimals, said without the code's rounding function: \<open>r\<close> is a multiple
  of 1/100 at most 1/200 away from \<open>x\<close>, and the even multiple when \<open>x\<close> lies halfway
  between two.
\<close>

definition rounded2 :: "real \<Rightarrow> real \<Rightarrow> bool" where
  "rounded2 x r \<longleftrightarrow>
     (\<exists>n :: int. r = of_int n / 100 \<and> \<bar>r - x\<bar> \<le> 1 / 200 \<and> (\<bar>r - x\<bar> = 1 / 200 \<longrightarrow> even n))"

definition scored :: "real \<Rightarrow> (string \<rightharpoonup> real) \<Rightarrow> real \<Rightarrow> real \<Rightarrow> string list \<Rightarrow> candidate" where
  "scored capacity overrides speed fuel_price p =
     \<lparr>cost = py_round2
               ((\<Sum>node\<leftarrow>p. handling_cost overrides node)
                + (\<Sum>(a, b)\<leftarrow>consecutive p.
                     port_distance a b * fuel_price * capacity_factor_of capacity)),
      time_h = py_round2 (\<Sum>(a, b)\<leftarrow>consecutive p. port_distance a b / speed),
      path = p\<rparr>"

text \<open>
  A candidate list is the deadline filter of the enumerated paths when every candidate in it
  is the scored form of an enumerated path and meets the deadline, and every enumerated path
  is scored, is in the list if its time meets the deadline, and has a time beyond the
  deadline if it is not in the list.
\<close>

definition deadline_filtered ::
  "string list list \<Rightarrow> (string list \<Rightarrow> error + score) \<Rightarrow> real \<Rightarrow> candidate list \<Rightarrow> bool"
where
  "deadline_filtered paths scoring deadline candidates \<longleftrightarrow>
     (\<forall>c \<in> set candidates.
        time_h c \<le> deadline \<and> path c \<in> set paths \<and>
        scoring (path c) = Inr \<lparr>cost = cost c, time_h = time_h c\<rparr>) \<and>
     (\<forall>p \<in> set paths. \<exists>info.
        scoring p = Inr info \<and>
        (time_h info \<le> deadline \<longrightarrow>
           \<lparr>cost = cost info, time_h = time_h info, path = p\<rparr> \<in> set candidates) \<and>
        (\<lparr>cost = cost info, time_h = time_h info, path = p\<rparr> \<notin> set candidates \<longrightarrow>
           deadline < time_h info))"

definition feasible ::
  "string \<Rightarrow> string \<Rightarrow> real \<Rightarrow> real \<Rightarrow> real \<Rightarrow> real \<Rightarrow> (string \<rightharpoonup> real) \<Rightarrow> candidate list"
where
  "feasible origin destination capacity speed deadline fuel_price overrides =
     filter (\<lambda>c. time_h c \<le> deadline)
       (map (scored capacity overrides speed fuel_price)
          (enumerate_simple_paths ADJ origin destination 6))"

definition pick_best :: "candidate list \<Rightarrow> candidate option" where
  "pick_best cs = (case cs of [] \<Rightarrow> None | c # _ \<Rightarrow> Some c)"

text \<open>
  The cache invariant: every cached pair is a pair of known ports, and its entry is what
  \<open>compute_edge_info\<close> returns for the pair, in either order.
\<close>

definition edges_ok :: "edges \<Rightarrow> bool" where
  "edges_ok E \<longleftrightarrow>
     (\<forall>a b info. E (a, b) = Some info \<longrightarrow>
        a \<in> dom PORTS \<and> b \<in> dom PORTS \<and>
        info = \<lparr>distance_km = port_distance a b, time_h = port_distance a b / 20\<rparr>)"

section \<open>Properties of the enumeration\<close>

text \<open>
  Every yielded path extends, by the destination, a path that was popped from the stack and
  passed the hop check; any property of stack entries that the start entry has and that
  extension by an unvisited neighbour keeps therefore holds of that popped path.
\<close>

lemma esp_loop_emits:
  assumes "q \<in> set (esp_loop graph dest max_hops stack)"
    and "\<And>n p. (n, p) \<in> set stack \<Longrightarrow> P n p"
    and "\<And>n p k. P n p \<Longrightarrow> k \<in> set (graph_get graph n) \<Longrightarrow> k \<notin> set p \<Longrightarrow> P k (p @ [k])"
  shows "\<exists>n p. P n p \<and> q = p @ [dest] \<and> dest \<notin> set p \<and> dest \<in> set (graph_get graph n)
            \<and> int (length p) - 1 \<le> max_hops"
  using assms
proof (induction graph dest max_hops stack rule: esp_loop.induct)
  case (1 graph dest max_hops)
  then show ?case by simp
next
  case (2 graph dest max_hops node pth stack)
  show ?case
  proof (cases "int (length pth) - 1 > max_hops")
    case True
    with "2.prems" have "q \<in> set (esp_loop graph dest max_hops stack)" by simp
    with "2.IH"(1) [OF True] "2.prems"(2,3) show ?thesis by simp
  next
    case False
    let ?r = "for_nbrs dest pth (graph_get graph node) stack"
    from False "2.prems"(1) have
      "q \<in> set (fst ?r) \<or> q \<in> set (esp_loop graph dest max_hops (snd ?r))" by simp
    then show ?thesis
    proof
      assume "q \<in> set (fst ?r)"
      from for_nbrs_out [OF this] False "2.prems"(2) [of node pth] show ?thesis
        by auto
    next
      assume q: "q \<in> set (esp_loop graph dest max_hops (snd ?r))"
      obtain new where new: "snd ?r = new @ stack"
        "\<forall>(n, p) \<in> set new. p = pth @ [n] \<and> n \<notin> set pth
            \<and> n \<in> set (graph_get graph node) \<and> n \<noteq> dest"
        using for_nbrs_stack [of dest pth "graph_get graph node" stack] by blast
      have "P n p" if "(n, p) \<in> set (snd ?r)" for n p
      proof -
        from that new(1) have "(n, p) \<in> set new \<or> (n, p) \<in> set stack" by simp
        then show ?thesis
        proof
          assume "(n, p) \<in> set new"
          with new(2) have "p = pth @ [n]" "n \<notin> set pth" "n \<in> set (graph_get graph node)"
            by auto
          moreover have "P node pth" by (rule "2.prems"(2)) simp
          ultimately show ?thesis using "2.prems"(3) [of node pth n] by simp
        next
          assume "(n, p) \<in> set stack"
          with "2.prems"(2) show ?thesis by simp
        qed
      qed
      with "2.IH"(2) [OF False q] "2.prems"(3) show ?thesis by blast
    qed
  qed
qed

lemma graph_get_ran:
  "k \<in> set (graph_get graph n) \<Longrightarrow> \<exists>nbrs \<in> ran graph. k \<in> set nbrs"
proof -
  assume k: "k \<in> set (graph_get graph n)"
  then obtain nbrs where "graph n = Some nbrs" "k \<in> set nbrs"
    by (cases "graph n") (simp_all add: graph_get_def)
  then show ?thesis by (auto simp: ran_def)
qed

lemma esp_source_is_dest: "enumerate_simple_paths graph dest dest max_hops = []"
proof (rule ccontr)
  assume "enumerate_simple_paths graph dest dest max_hops \<noteq> []"
  then obtain q where "q \<in> set (esp_loop graph dest max_hops [(dest, [dest])])"
    unfolding enumerate_simple_paths_def by (meson last_in_set)
  from esp_loop_emits [where P = "\<lambda>n p. dest \<in> set p", OF this]
  show False by auto
qed

lemma esp_dest_unlisted:
  assumes "\<forall>nbrs \<in> ran graph. dest \<notin> set nbrs"
  shows "enumerate_simple_paths graph source dest max_hops = []"
proof (rule ccontr)
  assume "enumerate_simple_paths graph source dest max_hops \<noteq> []"
  then obtain q where "q \<in> set (esp_loop graph dest max_hops [(source, [source])])"
    unfolding enumerate_simple_paths_def by (meson last_in_set)
  from esp_loop_emits [where P = "\<lambda>n p. True", OF this]
  obtain n where "dest \<in> set (graph_get graph n)" by auto
  with graph_get_ran [of dest graph n] assms show False by blast
qed

lemma esp_source_no_key:
  assumes "source \<notin> dom graph"
  shows "enumerate_simple_paths graph source dest max_hops = []"
proof -
  from assms have "graph_get graph source = []"
    by (auto simp: graph_get_def split: option.splits)
  then show ?thesis by (simp add: enumerate_simple_paths_def)
qed

text \<open>
  What the hop check does bound: a yielded path has at most \<open>max_hops + 1\<close> edges, because
  the check is made on the popped path before it is extended by one more node.
\<close>

lemma esp_edge_count:
  assumes "p \<in> set (enumerate_simple_paths graph source dest max_hops)"
  shows "int (length p) - 1 \<le> max_hops + 1"
proof -
  from assms have "p \<in> set (esp_loop graph dest max_hops [(source, [source])])"
    by (simp add: enumerate_simple_paths_def)
  from esp_loop_emits [where P = "\<lambda>n p. True", OF this]
  show ?thesis by auto
qed

lemma dom_ADJ: "dom ADJ = set (map fst ADJ_items)"
  by (simp add: ADJ_def dom_map_of_conv_image_fst)

lemma ran_ADJ: "ran ADJ = set (map snd ADJ_items)"
proof -
  have "distinct (map fst ADJ_items)" by (simp add: ADJ_items_def)
  then show ?thesis by (simp add: ADJ_def ran_distinct)
qed

text \<open>
  Claim C1. Every path yielded by \<open>enumerate_simple_paths\<close> has at most \<open>max_hops\<close>
  edges. The source's comment says so ("simple paths up to max_hops edges"), but the hop
  check is applied to the popped path before the destination is appended, one edge too
  late: on the module's own graph, with the hop limit 6 that both endpoints pass, the
  generator yields a path from CNS to DXB that has seven edges.
\<close>

theorem enumerate_simple_paths_seven_edges:
  "[''CNS'', ''HKG'', ''IDX'', ''SHA'', ''SIN'', ''PTY'', ''LAX'', ''DXB'']
     \<in> set (enumerate_simple_paths ADJ ''CNS'' ''DXB'' 6)
   \<and> int (length [''CNS'', ''HKG'', ''IDX'', ''SHA'', ''SIN'', ''PTY'', ''LAX'', ''DXB'']) - 1 = 7"
  by code_simp

text \<open>
  Claim C10. Every path yielded by \<open>enumerate_simple_paths\<close> contains no repeated node,
  for every graph, source, destination and hop limit.
\<close>

theorem enumerate_simple_paths_distinct:
  "p \<in> set (enumerate_simple_paths graph source dest max_hops) \<Longrightarrow> distinct p"
proof -
  assume "p \<in> set (enumerate_simple_paths graph source dest max_hops)"
  then have "p \<in> set (esp_loop graph dest max_hops [(source, [source])])"
    by (simp add: enumerate_simple_paths_def)
  from esp_loop_emits [where P = "\<lambda>n p. distinct p", OF this]
  show "distinct p" by auto
qed

theorem enumerate_simple_paths_distinct_witness:
  "[''PTY'', ''SIN'', ''HKG'', ''DXB'', ''LAX'']
     \<in> set (enumerate_simple_paths ADJ ''PTY'' ''LAX'' 6)
   \<and> distinct [''PTY'', ''SIN'', ''HKG'', ''DXB'', ''LAX'']"
proof -
  have m: "[''PTY'', ''SIN'', ''HKG'', ''DXB'', ''LAX'']
      \<in> set (enumerate_simple_paths ADJ ''PTY'' ''LAX'' 6)"
    by code_simp
  from m enumerate_simple_paths_distinct [OF m] show ?thesis by (rule conjI)
qed

text \<open>
  Claim C7. When source and destination are the same node the generator yields no path at
  all (so no single-node path either), and when the source or the destination is absent
  from the graph it yields nothing. The generator has no failing operation: the neighbour
  lookup has a default, so the model has no error value, and \<open>esp_loop\<close> is total. For
  the source it is enough that it is not a key; for the destination, that no neighbour list
  mentions it, which in a graph whose neighbour lists mention only keys (as \<open>ADJ\<close> does)
  is the case as soon as the destination is not a key.
\<close>

theorem enumerate_simple_paths_edge_cases:
  "(source = dest \<longrightarrow> enumerate_simple_paths graph source dest max_hops = []) \<and>
   (absent graph source \<or> absent graph dest \<longrightarrow>
      enumerate_simple_paths graph source dest max_hops = []) \<and>
   ((\<forall>nbrs \<in> ran graph. set nbrs \<subseteq> dom graph) \<and> (source \<notin> dom graph \<or> dest \<notin> dom graph) \<longrightarrow>
      enumerate_simple_paths graph source dest max_hops = [])"
proof (intro conjI impI)
  assume "source = dest"
  then show "enumerate_simple_paths graph source dest max_hops = []"
    by (simp add: esp_source_is_dest)
next
  assume "absent graph source \<or> absent graph dest"
  then show "enumerate_simple_paths graph source dest max_hops = []"
  proof
    assume "absent graph source"
    then show ?thesis by (simp add: absent_def esp_source_no_key)
  next
    assume "absent graph dest"
    then show ?thesis by (simp add: absent_def esp_dest_unlisted)
  qed
next
  assume c: "(\<forall>nbrs \<in> ran graph. set nbrs \<subseteq> dom graph) \<and> (source \<notin> dom graph \<or> dest \<notin> dom graph)"
  show "enumerate_simple_paths graph source dest max_hops = []"
  proof (cases "source \<in> dom graph")
    case False
    then show ?thesis by (rule esp_source_no_key)
  next
    case True
    with c have "\<forall>nbrs \<in> ran graph. dest \<notin> set nbrs" by blast
    then show ?thesis by (rule esp_dest_unlisted)
  qed
qed

theorem enumerate_simple_paths_edge_cases_witness:
  "enumerate_simple_paths ADJ ''HKG'' ''HKG'' 6 = [] \<and>
   absent ADJ ''XXX'' \<and>
   ''XXX'' \<notin> dom ADJ \<and>
   enumerate_simple_paths ADJ ''XXX'' ''HKG'' 6 = [] \<and>
   enumerate_simple_paths ADJ ''HKG'' ''XXX'' 6 = []"
proof -
  have a: "absent ADJ ''XXX''"
    unfolding absent_def dom_ADJ ran_ADJ by (simp add: ADJ_items_def)
  have k: "''XXX'' \<notin> dom ADJ"
    unfolding dom_ADJ by (simp add: ADJ_items_def)
  have c: "\<forall>nbrs \<in> ran ADJ. set nbrs \<subseteq> dom ADJ"
    unfolding dom_ADJ ran_ADJ by (simp add: ADJ_items_def)
  have "enumerate_simple_paths ADJ ''HKG'' ''HKG'' 6 = []"
    using enumerate_simple_paths_edge_cases [of "''HKG''" "''HKG''" ADJ 6] by simp
  moreover have "enumerate_simple_paths ADJ ''XXX'' ''HKG'' 6 = []"
    using enumerate_simple_paths_edge_cases [of "''XXX''" "''HKG''" ADJ 6] a by simp
  moreover have "enumerate_simple_paths ADJ ''HKG'' ''XXX'' 6 = []"
    using enumerate_simple_paths_edge_cases [of "''HKG''" "''XXX''" ADJ 6] c k by blast
  ultimately show ?thesis using a k by simp
qed

section \<open>Properties of the distance\<close>

lemma haversine_km_unfold:
  "haversine_km lat1 lon1 lat2 lon2 =
     (case math_sqrt (haversine_a lat1 lon1 lat2 lon2) of
        Inl e \<Rightarrow> Inl e
      | Inr sa \<Rightarrow>
          (case math_sqrt (1 - haversine_a lat1 lon1 lat2 lon2) of
             Inl e \<Rightarrow> Inl e
           | Inr sb \<Rightarrow> Inr (6371 * (2 * math_atan2 sa sb))))"
  by (simp only: haversine_km_def haversine_a_def Let_def)

lemma sin_half_sq: "(sin (x / 2))\<^sup>2 = (1 - cos x) / (2::real)"
  using cos_double_sin [of "x / 2"] by simp

lemma radians_diff: "radians (x - y) = radians x - radians y"
  by (simp add: radians_def left_diff_distrib)

text \<open>
  \<open>a\<close> is half of one minus the cosine of the central angle, written with the dot product
  of the two unit vectors; over the reals it therefore lies between 0 and 1, and both
  square roots are defined. Whether the floating-point evaluation keeps \<open>a\<close> within that
  range is a matter of rounding, which this development does not model.
\<close>

lemma haversine_a_eq:
  "haversine_a lat1 lon1 lat2 lon2 =
     (1 - (sin (radians lat1) * sin (radians lat2)
           + cos (radians lat1) * cos (radians lat2) * cos (radians (lon2 - lon1)))) / 2"
proof -
  define s1 s2 c1 c2 cl where "s1 = sin (radians lat1)" and "s2 = sin (radians lat2)"
    and "c1 = cos (radians lat1)" and "c2 = cos (radians lat2)"
    and "cl = cos (radians (lon2 - lon1))"
  have c: "cos (radians (lat2 - lat1)) = c2 * c1 + s2 * s1"
    by (simp only: radians_diff cos_diff s1_def s2_def c1_def c2_def)
  have "haversine_a lat1 lon1 lat2 lon2 = (1 - (c2 * c1 + s2 * s1)) / 2 + c1 * c2 * ((1 - cl) / 2)"
    by (simp only: haversine_a_def Let_def sin_half_sq c c1_def c2_def cl_def)
  also have "\<dots> = (1 - (s1 * s2 + c1 * c2 * cl)) / 2"
    by (simp add: field_simps)
  finally show ?thesis by (simp only: s1_def s2_def c1_def c2_def cl_def)
qed

lemma dot_bounds:
  fixes p q t :: real
  assumes "- 1 \<le> t" "t \<le> 1"
  shows "\<bar>sin p * sin q + cos p * cos q * t\<bar> \<le> 1"
proof -
  define A B where "A = cos (p - q)" and "B = - cos (p + q)"
  have e: "sin p * sin q + cos p * cos q * t = (1 + t) / 2 * A + (1 - t) / 2 * B"
    by (simp add: A_def B_def cos_diff cos_add field_simps)
  have A: "\<bar>A\<bar> \<le> 1" and B: "\<bar>B\<bar> \<le> 1" by (simp_all add: A_def B_def)
  have "\<bar>(1 + t) / 2 * A\<bar> = (1 + t) / 2 * \<bar>A\<bar>"
    using assms by (simp add: abs_mult)
  also have "\<dots> \<le> (1 + t) / 2"
    using assms A by (intro mult_left_le) simp_all
  finally have 1: "\<bar>(1 + t) / 2 * A\<bar> \<le> (1 + t) / 2" .
  have "\<bar>(1 - t) / 2 * B\<bar> = (1 - t) / 2 * \<bar>B\<bar>"
    using assms by (simp add: abs_mult)
  also have "\<dots> \<le> (1 - t) / 2"
    using assms B by (intro mult_left_le) simp_all
  finally have 2: "\<bar>(1 - t) / 2 * B\<bar> \<le> (1 - t) / 2" .
  have "\<bar>(1 + t) / 2 * A + (1 - t) / 2 * B\<bar> \<le> (1 + t) / 2 + (1 - t) / 2"
    using 1 2 by (rule order_trans [OF abs_triangle_ineq add_mono])
  moreover have "(1 + t) / 2 + (1 - t) / 2 = 1" by (simp add: field_simps)
  ultimately show ?thesis unfolding e by (simp only:)
qed

lemma haversine_a_bounds:
  "0 \<le> haversine_a lat1 lon1 lat2 lon2 \<and> haversine_a lat1 lon1 lat2 lon2 \<le> 1"
proof -
  have "\<bar>sin (radians lat1) * sin (radians lat2)
           + cos (radians lat1) * cos (radians lat2) * cos (radians (lon2 - lon1))\<bar> \<le> 1"
    by (rule dot_bounds) simp_all
  then show ?thesis unfolding haversine_a_eq by (simp add: abs_le_iff)
qed

lemma haversine_a_sym: "haversine_a lat2 lon2 lat1 lon1 = haversine_a lat1 lon1 lat2 lon2"
proof -
  have "radians (lon1 - lon2) = - radians (lon2 - lon1)"
    by (simp add: radians_diff)
  then show ?thesis unfolding haversine_a_eq by (simp add: mult.commute)
qed

lemma haversine_km_returns:
  "haversine_km lat1 lon1 lat2 lon2 = Inr (great_circle_km lat1 lon1 lat2 lon2)"
  using haversine_a_bounds [of lat1 lon1 lat2 lon2]
  by (simp add: haversine_km_unfold math_sqrt_def great_circle_km_def Let_def)

lemma math_atan2_nonneg: "0 \<le> y \<Longrightarrow> 0 \<le> x \<Longrightarrow> 0 \<le> math_atan2 y x"
  by (simp add: math_atan2_def)

lemma math_atan2_pos: "0 < y \<Longrightarrow> 0 \<le> x \<Longrightarrow> 0 < math_atan2 y x"
  by (simp add: math_atan2_def)

lemma math_atan2_le: "0 \<le> y \<Longrightarrow> 0 \<le> x \<Longrightarrow> math_atan2 y x \<le> pi / 2"
  using arctan_ubound [of "y / x"] by (simp add: math_atan2_def less_imp_le)

lemma great_circle_km_nonneg: "0 \<le> great_circle_km lat1 lon1 lat2 lon2"
  using haversine_a_bounds [of lat1 lon1 lat2 lon2]
  by (simp add: great_circle_km_def math_atan2_nonneg)

lemma great_circle_km_sym:
  "great_circle_km lat2 lon2 lat1 lon1 = great_circle_km lat1 lon1 lat2 lon2"
  by (simp add: great_circle_km_def haversine_a_sym)

lemma great_circle_km_le: "great_circle_km lat1 lon1 lat2 lon2 \<le> 6371 * pi"
proof -
  have "math_atan2 (sqrt (haversine_a lat1 lon1 lat2 lon2))
      (sqrt (1 - haversine_a lat1 lon1 lat2 lon2)) \<le> pi / 2"
    using haversine_a_bounds [of lat1 lon1 lat2 lon2] by (intro math_atan2_le) simp_all
  then show ?thesis by (simp add: great_circle_km_def)
qed

lemma haversine_a_pos:
  assumes "- 90 \<le> lat1" "lat1 \<le> 90" "- 90 \<le> lat2" "lat2 \<le> 90" "lat1 \<noteq> lat2"
  shows "0 < haversine_a lat1 lon1 lat2 lon2"
proof -
  define x where "x = radians (lat2 - lat1) / 2"
  have x: "x = (lat2 - lat1) / 360 * pi" by (simp add: x_def radians_def)
  have "\<bar>(lat2 - lat1) / 360\<bar> \<le> 1 / 2" using assms by (simp add: abs_le_iff)
  then have "\<bar>x\<bar> \<le> 1 / 2 * pi"
    unfolding x abs_mult by (intro mult_mono) simp_all
  then have "- pi < x" "x < pi" using pi_gt_zero by linarith+
  moreover have "x \<noteq> 0" using assms(5) by (simp add: x)
  ultimately have "sin x \<noteq> 0" using sin_eq_0_pi by blast
  then have s: "0 < (sin x)\<^sup>2" by simp
  have r: "- (pi / 2) \<le> radians l \<and> radians l \<le> pi / 2" if "- 90 \<le> l" "l \<le> 90" for l
  proof -
    have l: "radians l = l / 180 * pi" by (simp add: radians_def)
    have "- (1 / 2) * pi \<le> l / 180 * pi" using that by (intro mult_right_mono) simp_all
    moreover have "l / 180 * pi \<le> 1 / 2 * pi" using that by (intro mult_right_mono) simp_all
    ultimately show ?thesis unfolding l by linarith
  qed
  have "0 \<le> cos (radians lat1)" "0 \<le> cos (radians lat2)"
    using r [OF assms(1,2)] r [OF assms(3,4)] by (simp_all add: cos_ge_zero)
  then have "0 \<le> cos (radians lat1) * cos (radians lat2) * (sin (radians (lon2 - lon1) / 2))\<^sup>2"
    by simp
  with s show ?thesis
    unfolding haversine_a_def Let_def x_def [symmetric] by linarith
qed

lemma great_circle_km_pos:
  assumes "- 90 \<le> lat1" "lat1 \<le> 90" "- 90 \<le> lat2" "lat2 \<le> 90" "lat1 \<noteq> lat2"
  shows "0 < great_circle_km lat1 lon1 lat2 lon2"
proof -
  have "0 < sqrt (haversine_a lat1 lon1 lat2 lon2)"
    using haversine_a_pos [OF assms] by simp
  moreover have "0 \<le> sqrt (1 - haversine_a lat1 lon1 lat2 lon2)"
    using haversine_a_bounds [of lat1 lon1 lat2 lon2] by simp
  ultimately have "0 < math_atan2 (sqrt (haversine_a lat1 lon1 lat2 lon2))
      (sqrt (1 - haversine_a lat1 lon1 lat2 lon2))"
    by (rule math_atan2_pos)
  then show ?thesis by (simp add: great_circle_km_def)
qed

lemma haversine_km_nonneg:
  assumes "haversine_km lat1 lon1 lat2 lon2 = Inr d"
  shows "0 \<le> d"
proof -
  define a where "a = haversine_a lat1 lon1 lat2 lon2"
  from assms have "\<not> a < 0" "\<not> 1 - a < 0" and d: "d = 6371 * (2 * math_atan2 (sqrt a) (sqrt (1 - a)))"
    by (auto simp: haversine_km_unfold math_sqrt_def Let_def a_def split: if_splits)
  then have "0 \<le> math_atan2 (sqrt a) (sqrt (1 - a))"
    by (intro math_atan2_nonneg) simp_all
  then show ?thesis by (simp add: d)
qed

lemma haversine_km_same: "haversine_km lat1 lon1 lat1 lon1 = Inr 0"
  by (simp add: haversine_km_unfold haversine_a_def math_sqrt_def math_atan2_def radians_def)

lemma haversine_km_quarter: "haversine_km 0 0 0 90 = Inr (6371 * (pi / 2))"
proof -
  have a: "haversine_a 0 0 0 90 = 1 / 2"
    by (simp add: haversine_a_def radians_def sin_45 power2_eq_square)
  have t: "math_atan2 (sqrt (1 / 2)) (sqrt (1 / 2)) = pi / 4"
    by (simp add: math_atan2_def arctan_one)
  have "haversine_km 0 0 0 90 = Inr (6371 * (2 * math_atan2 (sqrt (1 / 2)) (sqrt (1 / 2))))"
    by (simp add: haversine_km_unfold a math_sqrt_def Let_def)
  also have "\<dots> = Inr (6371 * (pi / 2))"
    by (simp only: t) simp
  finally show ?thesis .
qed

text \<open>
  Claim C9. \<open>haversine_km\<close> is symmetric in its two points, a distance it returns is not
  negative, and the distance from a point to itself is 0.
\<close>

theorem haversine_km_symmetric:
  "haversine_km lat1 lon1 lat2 lon2 = haversine_km lat2 lon2 lat1 lon1 \<and>
   (\<forall>d. haversine_km lat1 lon1 lat2 lon2 = Inr d \<longrightarrow> 0 \<le> d) \<and>
   haversine_km lat1 lon1 lat1 lon1 = Inr 0"
proof (intro conjI allI impI)
  show "haversine_km lat1 lon1 lat2 lon2 = haversine_km lat2 lon2 lat1 lon1"
    by (simp only: haversine_km_unfold haversine_a_sym [of lat2 lon2 lat1 lon1])
  show "0 \<le> d" if "haversine_km lat1 lon1 lat2 lon2 = Inr d" for d
    using that by (rule haversine_km_nonneg)
  show "haversine_km lat1 lon1 lat1 lon1 = Inr 0"
    by (rule haversine_km_same)
qed

theorem haversine_km_symmetric_witness:
  "haversine_km 0 0 0 90 = Inr (6371 * (pi / 2)) \<and>
   haversine_km 0 90 0 0 = Inr (6371 * (pi / 2)) \<and>
   (0::real) \<le> 6371 * (pi / 2) \<and>
   haversine_km 0 0 0 0 = Inr 0"
  using haversine_km_symmetric [of 0 0 0 90] haversine_km_quarter by simp

section \<open>Properties of the edge cache\<close>

lemma port_distance_sym: "port_distance b a = port_distance a b"
  by (simp add: port_distance_def great_circle_km_sym split: option.splits)

lemma port_distance_nonneg: "0 \<le> port_distance a b"
  by (simp add: port_distance_def great_circle_km_nonneg split: option.splits)

lemma port_distance_le: "port_distance a b \<le> 6371 * pi"
  using great_circle_km_le pi_ge_zero
  by (simp add: port_distance_def split: option.splits)

lemma compute_edge_info_known:
  assumes "a \<in> dom PORTS" "b \<in> dom PORTS"
  shows "compute_edge_info a b =
    Inr \<lparr>distance_km = port_distance a b, time_h = port_distance a b / 20\<rparr>"
  using assms
  by (auto simp: compute_edge_info_def port_distance_def haversine_km_returns
      DEFAULT_VESSEL_SPEED_KMH_def)

lemma compute_edge_info_unknown:
  assumes "a \<notin> dom PORTS \<or> b \<notin> dom PORTS"
  shows "compute_edge_info a b = Inl KeyError"
  using assms by (auto simp: compute_edge_info_def split: option.splits)

lemma edge_key_sym: "edge_key b a = edge_key a b"
  by (auto simp: edge_key_def)

lemma edge_key_cases: "edge_key a b = (a, b) \<or> edge_key a b = (b, a)"
  by (simp add: edge_key_def)

lemma edges_ok_update:
  assumes "edges_ok E" "u \<in> dom PORTS" "v \<in> dom PORTS"
  shows "edges_ok (E(edge_key u v \<mapsto>
           \<lparr>distance_km = port_distance u v, time_h = port_distance u v / 20\<rparr>))"
  using assms edge_key_cases [of u v]
  by (auto simp: edges_ok_def port_distance_sym [of v u])

lemma edges_for_nbrs_ok:
  assumes "edges_ok E" "u \<in> dom PORTS" "set nbrs \<subseteq> dom PORTS"
  shows "\<exists>E'. edges_for_nbrs u nbrs E = Inr E' \<and> edges_ok E'"
  using assms
proof (induction nbrs arbitrary: E)
  case Nil
  then show ?case by simp
next
  case (Cons v nbrs)
  show ?case
  proof (cases "E (edge_key u v)")
    case None
    from Cons.prems have v: "v \<in> dom PORTS" and rest: "set nbrs \<subseteq> dom PORTS" by simp_all
    have "edges_ok (E(edge_key u v \<mapsto>
        \<lparr>distance_km = port_distance u v, time_h = port_distance u v / 20\<rparr>))"
      using Cons.prems(1,2) v by (rule edges_ok_update)
    from Cons.IH [OF this Cons.prems(2) rest]
    obtain E' where E': "edges_for_nbrs u nbrs (E(edge_key u v \<mapsto>
        \<lparr>distance_km = port_distance u v, time_h = port_distance u v / 20\<rparr>)) = Inr E'"
      "edges_ok E'" by blast
    have "edges_for_nbrs u (v # nbrs) E = edges_for_nbrs u nbrs (E(edge_key u v \<mapsto>
        \<lparr>distance_km = port_distance u v, time_h = port_distance u v / 20\<rparr>))"
      using None by (simp add: compute_edge_info_known [OF Cons.prems(2) v])
    with E' show ?thesis by (simp only:) blast
  next
    case (Some info)
    from Cons.prems have "set nbrs \<subseteq> dom PORTS" by simp
    from Cons.IH [OF Cons.prems(1,2) this] Some show ?thesis by simp
  qed
qed

lemma edges_for_items_ok:
  assumes "edges_ok E" "\<forall>(u, nbrs) \<in> set items. u \<in> dom PORTS \<and> set nbrs \<subseteq> dom PORTS"
  shows "\<exists>E'. edges_for_items items E = Inr E' \<and> edges_ok E'"
  using assms
proof (induction items arbitrary: E)
  case Nil
  then show ?case by simp
next
  case (Cons item items)
  obtain u nbrs where item: "item = (u, nbrs)" by (cases item)
  with Cons.prems have u: "u \<in> dom PORTS" "set nbrs \<subseteq> dom PORTS" by simp_all
  from edges_for_nbrs_ok [OF Cons.prems(1) u]
  obtain E' where E': "edges_for_nbrs u nbrs E = Inr E'" "edges_ok E'" by blast
  from Cons.prems(2) have "\<forall>(u, nbrs) \<in> set items. u \<in> dom PORTS \<and> set nbrs \<subseteq> dom PORTS"
    by simp
  from Cons.IH [OF E'(2) this] E'(1) item show ?case by simp
qed

lemma dom_PORTS: "dom PORTS = set (map fst PORTS_items)"
  by (simp add: PORTS_def dom_map_of_conv_image_fst)

lemma ADJ_items_known:
  "\<forall>(u, nbrs) \<in> set ADJ_items. u \<in> dom PORTS \<and> set nbrs \<subseteq> dom PORTS"
  unfolding dom_PORTS by (simp add: ADJ_items_def PORTS_items_def)

text \<open>The import of the module does not raise, and the cache it leaves is right.\<close>

lemma EDGES_init_returns: "EDGES_init = Inr EDGES \<and> edges_ok EDGES"
proof -
  have "edges_ok Map.empty" by (simp add: edges_ok_def)
  from edges_for_items_ok [OF this ADJ_items_known]
  show ?thesis by (auto simp: EDGES_init_def EDGES_def)
qed

lemma edges_okD:
  assumes "edges_ok E" "E (a, b) = Some info"
  shows "a \<in> dom PORTS" "b \<in> dom PORTS"
    "info = \<lparr>distance_km = port_distance a b, time_h = port_distance a b / 20\<rparr>"
  using assms unfolding edges_ok_def by blast+

lemma EDGES_ok: "edges_ok EDGES"
  using EDGES_init_returns by simp

lemma edge_info_for_known:
  assumes "a \<in> dom PORTS" "b \<in> dom PORTS"
  shows "edge_info_for a b =
    Inr \<lparr>distance_km = port_distance a b, time_h = port_distance a b / 20\<rparr>"
proof (cases "EDGES (edge_key a b)")
  case None
  then show ?thesis by (simp add: edge_info_for_def compute_edge_info_known [OF assms])
next
  case (Some info)
  from edge_key_cases [of a b] show ?thesis
  proof
    assume k: "edge_key a b = (a, b)"
    with Some have "EDGES (a, b) = Some info" by simp
    from edges_okD(3) [OF EDGES_ok this] Some show ?thesis
      by (simp add: edge_info_for_def)
  next
    assume k: "edge_key a b = (b, a)"
    with Some have "EDGES (b, a) = Some info" by simp
    from edges_okD(3) [OF EDGES_ok this] Some show ?thesis
      by (simp add: edge_info_for_def port_distance_sym [of b a])
  qed
qed

lemma edge_info_for_unknown:
  assumes "a \<notin> dom PORTS \<or> b \<notin> dom PORTS"
  shows "edge_info_for a b = Inl KeyError"
proof (cases "EDGES (edge_key a b)")
  case None
  then show ?thesis by (simp add: edge_info_for_def compute_edge_info_unknown [OF assms])
next
  case (Some info)
  from edge_key_cases [of a b] have "a \<in> dom PORTS \<and> b \<in> dom PORTS"
  proof
    assume "edge_key a b = (a, b)"
    with Some have "EDGES (a, b) = Some info" by simp
    from edges_okD(1,2) [OF EDGES_ok this] show ?thesis by simp
  next
    assume "edge_key a b = (b, a)"
    with Some have "EDGES (b, a) = Some info" by simp
    from edges_okD(1,2) [OF EDGES_ok this] show ?thesis by simp
  qed
  with assms show ?thesis by simp
qed

section \<open>Properties of the cost model\<close>

lemma consecutive_simps [simp]:
  "consecutive [] = []" "consecutive [a] = []"
  "consecutive (a # b # rest) = (a, b) # consecutive (b # rest)"
  by (simp_all add: consecutive_def)

lemma handling_loop_sum:
  "handling_loop overrides pth c = c + (\<Sum>node\<leftarrow>pth. handling_cost overrides node)"
  by (induction pth arbitrary: c)
     (simp_all add: handling_cost_def BASE_HANDLING_COST_def split: option.splits)

lemma edge_loop_sum:
  assumes "set pth \<subseteq> dom PORTS" "speed \<noteq> 0"
  shows "edge_loop capacity speed fuel pth (total_cost, total_time) =
    Inr (total_cost + (\<Sum>(a, b)\<leftarrow>consecutive pth.
                        port_distance a b * fuel * capacity_factor_of capacity),
         total_time + (\<Sum>(a, b)\<leftarrow>consecutive pth. port_distance a b / speed))"
  using assms
proof (induction pth arbitrary: total_cost total_time)
  case Nil
  then show ?case by simp
next
  case (Cons a pth)
  show ?case
  proof (cases pth)
    case Nil
    then show ?thesis by simp
  next
    case (Cons b rest)
    from Cons.prems Cons have ab: "a \<in> dom PORTS" "b \<in> dom PORTS"
      and sub: "set pth \<subseteq> dom PORTS" by simp_all
    have step: "edge_loop capacity speed fuel (a # b # rest) (total_cost, total_time) =
        edge_loop capacity speed fuel (b # rest)
          (total_cost + port_distance a b * fuel * capacity_factor_of capacity,
           total_time + port_distance a b / speed)"
      using Cons.prems(2)
      by (simp add: edge_info_for_known [OF ab] capacity_factor_of_def Let_def)
    show ?thesis
      unfolding Cons step
      using Cons.IH [OF sub Cons.prems(2)] Cons
      by (simp add: add.assoc)
  qed
qed

lemma PTY_known: "''PTY'' \<in> dom PORTS" "''LAX'' \<in> dom PORTS" "''SIN'' \<in> dom PORTS"
  unfolding dom_PORTS by (simp_all add: PORTS_items_def)

lemma py_round2_rounded2: "rounded2 x (py_round2 x)"
proof -
  define y where "y = x * 100"
  define f where "f = \<lfloor>y\<rfloor>"
  define r where "r = y - of_int f"
  have r: "0 \<le> r" "r < 1" unfolding r_def f_def by linarith+
  have x: "x = (of_int f + r) / 100" by (simp add: r_def y_def)
  have pr: "py_round2 x = of_int (if r < 1 / 2 then f
      else if 1 / 2 < r then f + 1 else if even f then f else f + 1) / 100"
    by (simp only: py_round2_def Let_def r_def f_def y_def)
  consider "r < 1 / 2" | "1 / 2 < r" | "r = 1 / 2" "even f" | "r = 1 / 2" "odd f"
    by linarith
  then show ?thesis
  proof cases
    case 1
    then have p: "py_round2 x = of_int f / 100"
      by (simp add: pr)
    have "\<bar>of_int f / 100 - x\<bar> = r / 100" using r by (simp add: x field_simps)
    with 1 r show ?thesis unfolding rounded2_def p
      by (intro exI [of _ f]) simp
  next
    case 2
    then have p: "py_round2 x = of_int (f + 1) / 100"
      by (simp add: pr)
    have "\<bar>of_int (f + 1) / 100 - x\<bar> = (1 - r) / 100" using r by (simp add: x field_simps)
    with 2 r show ?thesis unfolding rounded2_def p
      by (intro exI [of _ "f + 1"]) simp
  next
    case 3
    then have p: "py_round2 x = of_int f / 100"
      by (simp add: pr)
    have "\<bar>of_int f / 100 - x\<bar> = r / 100" using r by (simp add: x field_simps)
    with 3 r show ?thesis unfolding rounded2_def p
      by (intro exI [of _ f]) simp
  next
    case 4
    then have p: "py_round2 x = of_int (f + 1) / 100"
      by (simp add: pr)
    have "\<bar>of_int (f + 1) / 100 - x\<bar> = (1 - r) / 100" using r by (simp add: x field_simps)
    with 4 r show ?thesis unfolding rounded2_def p
      by (intro exI [of _ "f + 1"]) simp
  qed
qed

lemma rounded2_unique:
  assumes "rounded2 x r" "rounded2 x r'"
  shows "r = r'"
proof -
  from assms(1) obtain n :: int where n: "r = of_int n / 100" "\<bar>r - x\<bar> \<le> 1 / 200"
    "\<bar>r - x\<bar> = 1 / 200 \<longrightarrow> even n" unfolding rounded2_def by blast
  from assms(2) obtain m :: int where m: "r' = of_int m / 100" "\<bar>r' - x\<bar> \<le> 1 / 200"
    "\<bar>r' - x\<bar> = 1 / 200 \<longrightarrow> even m" unfolding rounded2_def by blast
  have "\<bar>r - r'\<bar> \<le> 1 / 100" using n(2) m(2) by linarith
  then have "\<bar>(of_int (n - m) :: real)\<bar> \<le> 1" by (simp add: n(1) m(1) field_simps)
  then have d: "\<bar>n - m\<bar> \<le> 1" by linarith
  show ?thesis
  proof (cases "n = m")
    case True
    then show ?thesis by (simp add: n(1) m(1))
  next
    case False
    with d have nm: "n = m + 1 \<or> m = n + 1" by linarith
    then have "\<bar>r - r'\<bar> = 1 / 100" by (auto simp: n(1) m(1) field_simps)
    with n(2) m(2) have "\<bar>r - x\<bar> = 1 / 200" "\<bar>r' - x\<bar> = 1 / 200" by linarith+
    with n(3) m(3) have "even n" "even m" by simp_all
    with nm show ?thesis by auto
  qed
qed

text \<open>
  Claim C3. For a path of known ports and a speed other than 0, \<open>path_cost_and_time\<close>
  returns as cost the sum of the handling costs of all nodes of the path (the override of
  a node if it has one, else 500) plus the sum over consecutive pairs of distance times
  fuel price times capacity factor, rounded to two decimals, and as time the sum over
  consecutive pairs of distance divided by the caller's speed, rounded to two decimals.
  Rounded to two decimals is \<open>rounded2\<close>: the returned number is the multiple of 1/100
  nearest to the sum.
\<close>

theorem path_cost_and_time_formula:
  assumes "set pth \<subseteq> dom PORTS" "speed \<noteq> 0"
  shows "\<exists>c t.
    path_cost_and_time pth capacity overrides speed fuel_price = Inr \<lparr>cost = c, time_h = t\<rparr> \<and>
    rounded2 ((\<Sum>node\<leftarrow>pth. handling_cost overrides node)
              + (\<Sum>(a, b)\<leftarrow>consecutive pth.
                   port_distance a b * fuel_price * capacity_factor_of capacity)) c \<and>
    rounded2 (\<Sum>(a, b)\<leftarrow>consecutive pth. port_distance a b / speed) t"
proof (intro exI conjI)
  show "path_cost_and_time pth capacity overrides speed fuel_price =
    Inr \<lparr>cost = py_round2
             ((\<Sum>node\<leftarrow>pth. handling_cost overrides node)
              + (\<Sum>(a, b)\<leftarrow>consecutive pth.
                   port_distance a b * fuel_price * capacity_factor_of capacity)),
         time_h = py_round2 (\<Sum>(a, b)\<leftarrow>consecutive pth. port_distance a b / speed)\<rparr>"
    by (simp add: path_cost_and_time_def edge_loop_sum [OF assms] handling_loop_sum)
  show "rounded2 ((\<Sum>node\<leftarrow>pth. handling_cost overrides node)
              + (\<Sum>(a, b)\<leftarrow>consecutive pth.
                   port_distance a b * fuel_price * capacity_factor_of capacity))
      (py_round2 ((\<Sum>node\<leftarrow>pth. handling_cost overrides node)
              + (\<Sum>(a, b)\<leftarrow>consecutive pth.
                   port_distance a b * fuel_price * capacity_factor_of capacity)))"
    by (rule py_round2_rounded2)
  show "rounded2 (\<Sum>(a, b)\<leftarrow>consecutive pth. port_distance a b / speed)
      (py_round2 (\<Sum>(a, b)\<leftarrow>consecutive pth. port_distance a b / speed))"
    by (rule py_round2_rounded2)
qed

theorem path_cost_and_time_formula_witness:
  "path_cost_and_time [''SIN''] 1000 [''SIN'' \<mapsto> 1234567 / 1000] 20 (12 / 100) =
     Inr \<lparr>cost = 123457 / 100, time_h = 0\<rparr> \<and>
   path_cost_and_time [''SIN''] 1000 [''SIN'' \<mapsto> 15 / 1000] 20 (12 / 100) =
     Inr \<lparr>cost = 2 / 100, time_h = 0\<rparr> \<and>
   path_cost_and_time [''SIN''] 1000 [''SIN'' \<mapsto> 1 / 300] 20 (12 / 100) =
     Inr \<lparr>cost = 0, time_h = 0\<rparr> \<and>
   (\<exists>c t.
      path_cost_and_time [''SIN'', ''PTY'', ''LAX''] 1000 [''PTY'' \<mapsto> 700] 20 (12 / 100) =
        Inr \<lparr>cost = c, time_h = t\<rparr> \<and>
      rounded2 (1700 + (port_distance ''SIN'' ''PTY'' * (12 / 100)
                        + port_distance ''PTY'' ''LAX'' * (12 / 100))) c \<and>
      rounded2 (port_distance ''SIN'' ''PTY'' / 20 + port_distance ''PTY'' ''LAX'' / 20) t)"
proof -
  have s: "set [''SIN''] \<subseteq> dom PORTS" using PTY_known by simp
  have z: "rounded2 0 0" unfolding rounded2_def by (intro exI [of _ 0]) simp
  have one: "path_cost_and_time [''SIN''] 1000 [''SIN'' \<mapsto> x] 20 (12 / 100) =
      Inr \<lparr>cost = r, time_h = 0\<rparr>" if "rounded2 x r" for x r
  proof -
    from path_cost_and_time_formula [OF s, of 20 1000 "[''SIN'' \<mapsto> x]" "12 / 100"]
    obtain c t where ct:
      "path_cost_and_time [''SIN''] 1000 [''SIN'' \<mapsto> x] 20 (12 / 100) = Inr \<lparr>cost = c, time_h = t\<rparr>"
      "rounded2 x c" "rounded2 0 t"
      by (auto simp: handling_cost_def)
    from rounded2_unique [OF ct(2) that] rounded2_unique [OF ct(3) z] ct(1)
    show ?thesis by simp
  qed
  have 1: "rounded2 (1234567 / 1000) (123457 / 100)"
    unfolding rounded2_def by (intro exI [of _ 123457]) simp
  have 2: "rounded2 (15 / 1000) (2 / 100)"
    unfolding rounded2_def by (intro exI [of _ 2]) simp
  have 3: "rounded2 (1 / 300) 0"
    unfolding rounded2_def by (intro exI [of _ 0]) simp
  have "set [''SIN'', ''PTY'', ''LAX''] \<subseteq> dom PORTS" using PTY_known by simp
  from path_cost_and_time_formula [OF this, of 20 1000 "[''PTY'' \<mapsto> 700]" "12 / 100"]
  have 4: "\<exists>c t.
      path_cost_and_time [''SIN'', ''PTY'', ''LAX''] 1000 [''PTY'' \<mapsto> 700] 20 (12 / 100) =
        Inr \<lparr>cost = c, time_h = t\<rparr> \<and>
      rounded2 (1700 + (port_distance ''SIN'' ''PTY'' * (12 / 100)
                        + port_distance ''PTY'' ''LAX'' * (12 / 100))) c \<and>
      rounded2 (port_distance ''SIN'' ''PTY'' / 20 + port_distance ''PTY'' ''LAX'' / 20) t"
    by (simp add: handling_cost_def capacity_factor_of_def)
  from one [OF 1] one [OF 2] one [OF 3] 4 show ?thesis by (intro conjI)
qed

lemma PORTS_SIN: "PORTS ''SIN'' = Some \<lparr>name = ''Singapore'', lat = 13521 / 10000, lon = 1038198 / 10000\<rparr>"
  by (simp add: PORTS_def PORTS_items_def)

lemma PORTS_PTY: "PORTS ''PTY'' = Some \<lparr>name = ''Panama City'', lat = 89833 / 10000, lon = - (795167 / 10000)\<rparr>"
  by (simp add: PORTS_def PORTS_items_def)

lemma port_distance_SIN_PTY: "0 < port_distance ''SIN'' ''PTY''"
  unfolding port_distance_def PORTS_SIN PORTS_PTY
  by (simp add: great_circle_km_pos)

lemma sum_list_consecutive_factor:
  "(\<Sum>(a, b)\<leftarrow>ps. d a b * fuel * f) = (\<Sum>(a, b)\<leftarrow>ps. d a b) * (fuel * (f :: real))"
  by (induction ps) (auto simp: algebra_simps)

lemma sum_list_distance_nonneg: "0 \<le> (\<Sum>(a, b)\<leftarrow>ps. port_distance a b)"
  by (induction ps) (auto simp: port_distance_nonneg)

lemma sum_list_distance_pos:
  assumes "\<exists>(a, b) \<in> set ps. 0 < port_distance a b"
  shows "0 < (\<Sum>(a, b)\<leftarrow>ps. port_distance a b)"
  using assms
proof (induction ps)
  case Nil
  then show ?case by simp
next
  case (Cons p ps)
  obtain a b where p: "p = (a, b)" by (cases p)
  show ?case
  proof (cases "0 < port_distance a b")
    case True
    with sum_list_distance_nonneg [of ps] p show ?thesis by simp
  next
    case False
    with Cons.prems p have "\<exists>(a, b) \<in> set ps. 0 < port_distance a b" by auto
    from Cons.IH [OF this] port_distance_nonneg [of a b] p show ?thesis by simp
  qed
qed

text \<open>
  Claim C6. For a fixed path with an edge of positive distance and a positive fuel price,
  the edge-cost total that the edge loop accumulates (before the final rounding) is
  strictly increasing in the capacity from 500 upwards, and for every capacity at or below
  500 it is the same value, the one at capacity factor 1/2.
\<close>

theorem edge_cost_capacity:
  assumes "set pth \<subseteq> dom PORTS" "speed \<noteq> 0" "0 < fuel_price"
    and "\<exists>(a, b) \<in> set (consecutive pth). 0 < port_distance a b"
  shows "\<exists>e1 e2 t.
           edge_loop c1 speed fuel_price pth (0, 0) = Inr (e1, t) \<and>
           edge_loop c2 speed fuel_price pth (0, 0) = Inr (e2, t) \<and>
           (500 \<le> c1 \<and> c1 < c2 \<longrightarrow> e1 < e2) \<and>
           (c1 \<le> 500 \<and> c2 \<le> 500 \<longrightarrow> e1 = e2) \<and>
           (c1 \<le> 500 \<longrightarrow>
              e1 = (\<Sum>(a, b)\<leftarrow>consecutive pth. port_distance a b * fuel_price * (1 / 2)))"
proof -
  define D where "D = (\<Sum>(a, b)\<leftarrow>consecutive pth. port_distance a b)"
  have D: "0 < D * fuel_price"
    unfolding D_def using sum_list_distance_pos [OF assms(4)] assms(3) by simp
  have e: "edge_loop c speed fuel_price pth (0, 0) =
      Inr (D * (fuel_price * capacity_factor_of c),
           (\<Sum>(a, b)\<leftarrow>consecutive pth. port_distance a b / speed))" for c
    by (simp add: edge_loop_sum [OF assms(1,2)] sum_list_consecutive_factor D_def)
  have inc: "D * (fuel_price * capacity_factor_of c1) < D * (fuel_price * capacity_factor_of c2)"
    if "500 \<le> c1" "c1 < c2"
  proof -
    from that have "capacity_factor_of c1 < capacity_factor_of c2"
      by (simp add: capacity_factor_of_def max_def)
    with D have "D * fuel_price * capacity_factor_of c1 < D * fuel_price * capacity_factor_of c2"
      by (simp only: mult_strict_left_mono)
    then show ?thesis by (simp add: mult.assoc)
  qed
  have flat: "capacity_factor_of c = 1 / 2" if "c \<le> 500" for c
    using that by (simp add: capacity_factor_of_def max_def)
  have half: "(\<Sum>(a, b)\<leftarrow>consecutive pth. port_distance a b * fuel_price * (1 / 2))
      = D * (fuel_price * (1 / 2))"
    unfolding D_def by (rule sum_list_consecutive_factor)
  show ?thesis
  proof (intro exI conjI impI)
    show "edge_loop c1 speed fuel_price pth (0, 0) =
        Inr (D * (fuel_price * capacity_factor_of c1),
             (\<Sum>(a, b)\<leftarrow>consecutive pth. port_distance a b / speed))"
      by (rule e)
    show "edge_loop c2 speed fuel_price pth (0, 0) =
        Inr (D * (fuel_price * capacity_factor_of c2),
             (\<Sum>(a, b)\<leftarrow>consecutive pth. port_distance a b / speed))"
      by (rule e)
    show "D * (fuel_price * capacity_factor_of c1) < D * (fuel_price * capacity_factor_of c2)"
      if "500 \<le> c1 \<and> c1 < c2"
      using that inc by blast
    show "D * (fuel_price * capacity_factor_of c1) = D * (fuel_price * capacity_factor_of c2)"
      if "c1 \<le> 500 \<and> c2 \<le> 500"
      using that by (simp add: flat)
    show "D * (fuel_price * capacity_factor_of c1) =
        (\<Sum>(a, b)\<leftarrow>consecutive pth. port_distance a b * fuel_price * (1 / 2))"
      if "c1 \<le> 500"
      using that by (simp only: half flat)
  qed
qed

theorem edge_cost_capacity_witness:
  "(\<exists>e1 e2 t.
      edge_loop 1000 20 (12 / 100) [''SIN'', ''PTY''] (0, 0) = Inr (e1, t) \<and>
      edge_loop 2000 20 (12 / 100) [''SIN'', ''PTY''] (0, 0) = Inr (e2, t) \<and> e1 < e2) \<and>
   (\<exists>e1 e2 t.
      edge_loop 100 20 (12 / 100) [''SIN'', ''PTY''] (0, 0) = Inr (e1, t) \<and>
      edge_loop 400 20 (12 / 100) [''SIN'', ''PTY''] (0, 0) = Inr (e2, t) \<and> e1 = e2 \<and>
      e1 = port_distance ''SIN'' ''PTY'' * (12 / 100) * (1 / 2))"
proof -
  have p: "set [''SIN'', ''PTY''] \<subseteq> dom PORTS" using PTY_known by simp
  have s: "(20::real) \<noteq> 0" and f: "(0::real) < 12 / 100" by simp_all
  have d: "\<exists>(a, b) \<in> set (consecutive [''SIN'', ''PTY'']). 0 < port_distance a b"
    using port_distance_SIN_PTY by simp
  from edge_cost_capacity [OF p s f d, of 1000 2000]
  have 1: "\<exists>e1 e2 t.
      edge_loop 1000 20 (12 / 100) [''SIN'', ''PTY''] (0, 0) = Inr (e1, t) \<and>
      edge_loop 2000 20 (12 / 100) [''SIN'', ''PTY''] (0, 0) = Inr (e2, t) \<and> e1 < e2"
    by simp
  from edge_cost_capacity [OF p s f d, of 100 400]
  have 2: "\<exists>e1 e2 t.
      edge_loop 100 20 (12 / 100) [''SIN'', ''PTY''] (0, 0) = Inr (e1, t) \<and>
      edge_loop 400 20 (12 / 100) [''SIN'', ''PTY''] (0, 0) = Inr (e2, t) \<and> e1 = e2 \<and>
      e1 = port_distance ''SIN'' ''PTY'' * (12 / 100) * (1 / 2)"
    by simp
  from 1 2 show ?thesis by (rule conjI)
qed

section \<open>Properties of the endpoints\<close>

lemma path_cost_and_time_scored:
  assumes "set p \<subseteq> dom PORTS" "speed \<noteq> 0"
  shows "path_cost_and_time p capacity overrides speed fuel_price =
    Inr \<lparr>cost = cost (scored capacity overrides speed fuel_price p),
         time_h = time_h (scored capacity overrides speed fuel_price p)\<rparr>"
  by (simp add: path_cost_and_time_def edge_loop_sum [OF assms] handling_loop_sum scored_def)

lemma scored_path [simp]: "path (scored capacity overrides speed fuel_price p) = p"
  by (simp add: scored_def)

lemma scored_eq:
  "\<lparr>cost = cost (scored capacity overrides speed fuel_price p),
    time_h = time_h (scored capacity overrides speed fuel_price p), path = p\<rparr>
   = scored capacity overrides speed fuel_price p"
  by (simp add: scored_def)

lemma candidates_loop_closed:
  assumes "\<forall>p \<in> set paths. set p \<subseteq> dom PORTS" "speed \<noteq> 0"
  shows "candidates_loop capacity overrides speed fuel_price deadline paths cands =
    Inr (cands @ filter (\<lambda>c. time_h c \<le> deadline)
                   (map (scored capacity overrides speed fuel_price) paths))"
  using assms(1)
proof (induction paths arbitrary: cands)
  case Nil
  then show ?case by simp
next
  case (Cons p paths)
  from Cons.prems have p: "set p \<subseteq> dom PORTS" and rest: "\<forall>p \<in> set paths. set p \<subseteq> dom PORTS"
    by simp_all
  show ?case
    by (simp add: path_cost_and_time_scored [OF p assms(2)] scored_eq Cons.IH [OF rest])
qed

lemma graph_get_ADJ_known:
  assumes "k \<in> set (graph_get ADJ n)"
  shows "n \<in> dom PORTS \<and> k \<in> dom PORTS"
proof -
  from assms obtain nbrs where "ADJ n = Some nbrs" "k \<in> set nbrs"
    by (cases "ADJ n") (simp_all add: graph_get_def)
  then have "(n, nbrs) \<in> set ADJ_items" by (simp add: ADJ_def map_of_SomeD)
  with ADJ_items_known \<open>k \<in> set nbrs\<close> show ?thesis by blast
qed

lemma enumerated_paths_known:
  assumes "q \<in> set (enumerate_simple_paths ADJ source dest max_hops)"
  shows "set q \<subseteq> dom PORTS"
proof -
  define P where "P = (\<lambda>n p. (n = source \<and> p = [source]) \<or> set p \<subseteq> dom PORTS)"
  from assms have mem: "q \<in> set (esp_loop ADJ dest max_hops [(source, [source])])"
    by (simp add: enumerate_simple_paths_def)
  have init: "P n p" if "(n, p) \<in> set [(source, [source])]" for n p
    using that by (simp add: P_def)
  have step: "P k (p @ [k])" if "P n p" "k \<in> set (graph_get ADJ n)" "k \<notin> set p" for n p k
  proof -
    from graph_get_ADJ_known [OF that(2)] that(1) have "set (p @ [k]) \<subseteq> dom PORTS"
      by (auto simp: P_def)
    then show ?thesis by (simp add: P_def)
  qed
  have "\<exists>n p. P n p \<and> q = p @ [dest] \<and> dest \<notin> set p \<and> dest \<in> set (graph_get ADJ n)
            \<and> int (length p) - 1 \<le> max_hops"
  proof (rule esp_loop_emits [where P = P, OF mem])
    fix n p
    assume "(n, p) \<in> set [(source, [source])]"
    then show "P n p" by (rule init)
  next
    fix n p k
    assume "P n p" "k \<in> set (graph_get ADJ n)" "k \<notin> set p"
    then show "P k (p @ [k])" by (rule step)
  qed
  then obtain n p where np: "P n p" "q = p @ [dest]" "dest \<in> set (graph_get ADJ n)"
    by blast
  from graph_get_ADJ_known [OF np(3)] np(1,2) show ?thesis by (auto simp: P_def)
qed

lemma api_optimize_closed:
  assumes "origin \<in> dom PORTS" "destination \<in> dom PORTS" "speed \<noteq> 0"
  shows "api_optimize origin destination capacity speed deadline fuel_price overrides =
    Inr \<lparr>best = pick_best (sort_key cost
                   (feasible origin destination capacity speed deadline fuel_price overrides)),
         all = sort_key cost
                   (feasible origin destination capacity speed deadline fuel_price overrides)\<rparr>"
proof -
  have k: "\<forall>p \<in> set (enumerate_simple_paths ADJ origin destination 6). set p \<subseteq> dom PORTS"
    using enumerated_paths_known by blast
  have b: "(if cs \<noteq> [] then Some (cs ! 0) else None) = pick_best cs" for cs :: "candidate list"
    by (cases cs) (simp_all add: pick_best_def)
  from assms(1,2) have "\<not> (PORTS origin = None \<or> PORTS destination = None)" by auto
  then show ?thesis
    by (simp add: api_optimize_def candidates_loop_closed [OF k assms(3)] Let_def b feasible_def)
qed

lemma optimize_closed:
  assumes "speed \<noteq> 0"
  shows "optimize float origin destination capacity speed deadline fuel_price overrides_raw =
    Inr \<lparr>best = pick_best (sort_key cost
                   (feasible origin destination capacity speed deadline fuel_price
                      (parse_overrides float overrides_raw))),
         all = sort_key cost
                   (feasible origin destination capacity speed deadline fuel_price
                      (parse_overrides float overrides_raw))\<rparr>"
proof -
  have k: "\<forall>p \<in> set (enumerate_simple_paths ADJ origin destination 6). set p \<subseteq> dom PORTS"
    using enumerated_paths_known by blast
  have b: "(if cs \<noteq> [] then Some (cs ! 0) else None) = pick_best cs" for cs :: "candidate list"
    by (cases cs) (simp_all add: pick_best_def)
  show ?thesis
    by (simp add: optimize_def candidates_loop_closed [OF k assms] Let_def b feasible_def)
qed

lemma feasible_filtered:
  assumes "speed \<noteq> 0"
  shows "deadline_filtered (enumerate_simple_paths ADJ origin destination 6)
     (\<lambda>p. path_cost_and_time p capacity overrides speed fuel_price) deadline
     (sort_key cost (feasible origin destination capacity speed deadline fuel_price overrides))"
  unfolding deadline_filtered_def
proof (rule conjI; rule ballI)
  fix c
  assume "c \<in> set (sort_key cost
      (feasible origin destination capacity speed deadline fuel_price overrides))"
  then obtain p where p: "p \<in> set (enumerate_simple_paths ADJ origin destination 6)"
    "c = scored capacity overrides speed fuel_price p" "time_h c \<le> deadline"
    by (auto simp: feasible_def)
  from enumerated_paths_known [OF p(1)] have "set p \<subseteq> dom PORTS" .
  from path_cost_and_time_scored [OF this assms] p
  show "time_h c \<le> deadline \<and> path c \<in> set (enumerate_simple_paths ADJ origin destination 6) \<and>
      path_cost_and_time (path c) capacity overrides speed fuel_price =
        Inr \<lparr>cost = cost c, time_h = time_h c\<rparr>"
    by simp
next
  fix p
  assume p: "p \<in> set (enumerate_simple_paths ADJ origin destination 6)"
  let ?c = "scored capacity overrides speed fuel_price p"
  let ?all = "sort_key cost (feasible origin destination capacity speed deadline fuel_price overrides)"
  from enumerated_paths_known [OF p] have "set p \<subseteq> dom PORTS" .
  from path_cost_and_time_scored [OF this assms]
  have s: "path_cost_and_time p capacity overrides speed fuel_price =
      Inr \<lparr>cost = cost ?c, time_h = time_h ?c\<rparr>" .
  have m: "?c \<in> set ?all \<longleftrightarrow> time_h ?c \<le> deadline"
    using p by (auto simp: feasible_def)
  have A: "time_h ?c \<le> deadline \<longrightarrow> ?c \<in> set ?all"
    and B: "?c \<notin> set ?all \<longrightarrow> deadline < time_h ?c"
    using m by auto
  show "\<exists>info. path_cost_and_time p capacity overrides speed fuel_price = Inr info \<and>
      (time_h info \<le> deadline \<longrightarrow>
         \<lparr>cost = cost info, time_h = time_h info, path = p\<rparr> \<in> set ?all) \<and>
      (\<lparr>cost = cost info, time_h = time_h info, path = p\<rparr> \<notin> set ?all \<longrightarrow>
         deadline < time_h info)"
    using A B by (intro exI [of _ "\<lparr>cost = cost ?c, time_h = time_h ?c\<rparr>"]) (simp add: s scored_eq)
qed

lemma py_round2_le: "py_round2 x \<le> x + 1 / 100"
proof -
  define f :: real where "f = of_int \<lfloor>x * 100\<rfloor>"
  have "py_round2 x \<le> (f + 1) / 100"
    by (simp add: py_round2_def Let_def f_def)
  moreover have "f \<le> x * 100" unfolding f_def by (rule of_int_floor_le)
  then have "(f + 1) / 100 \<le> x + 1 / 100" by simp
  ultimately show ?thesis by (rule order_trans)
qed

lemma PTY_LAX_enumerated: "[''PTY'', ''LAX''] \<in> set (enumerate_simple_paths ADJ ''PTY'' ''LAX'' 6)"
  by code_simp

lemma PTY_LAX_time:
  "time_h (scored 1000 Map.empty 20 (12 / 100) [''PTY'', ''LAX'']) \<le> 10 ^ 9"
proof -
  have "port_distance ''PTY'' ''LAX'' \<le> 6371 * 4"
    using port_distance_le [of "''PTY''" "''LAX''"] pi_less_4 by simp
  then have "port_distance ''PTY'' ''LAX'' / 20 + 1 / 100 \<le> 10 ^ 9" by simp
  with py_round2_le [of "port_distance ''PTY'' ''LAX'' / 20"] show ?thesis
    by (simp add: scored_def)
qed

lemma PTY_LAX_feasible:
  "scored 1000 Map.empty 20 (12 / 100) [''PTY'', ''LAX'']
     \<in> set (feasible ''PTY'' ''LAX'' 1000 20 (10 ^ 9) (12 / 100) Map.empty)"
  using PTY_LAX_enumerated PTY_LAX_time by (simp add: feasible_def)

lemma pick_best_least:
  assumes "sorted (map cost cs)"
  shows "(cs = [] \<longrightarrow> pick_best cs = None) \<and>
         (cs \<noteq> [] \<longrightarrow> (\<exists>b. pick_best cs = Some b \<and> b \<in> set cs \<and> (\<forall>c \<in> set cs. cost b \<le> cost c)))"
  using assms by (cases cs) (auto simp: pick_best_def)

text \<open>
  Claim C4. With a speed other than 0 both endpoints return, and the candidate list they
  return is exactly the deadline filter of the enumerated paths: every candidate in it has
  a rounded time at most the deadline, and every enumerated path left out of it has a
  rounded time beyond the deadline. (The JSON endpoint first requires known port codes.)
\<close>

theorem deadline_filter_exact:
  assumes "speed \<noteq> 0"
  shows "(origin \<in> dom PORTS \<and> destination \<in> dom PORTS \<longrightarrow>
           (\<exists>r. api_optimize origin destination capacity speed deadline fuel_price overrides = Inr r \<and>
                deadline_filtered (enumerate_simple_paths ADJ origin destination 6)
                  (\<lambda>p. path_cost_and_time p capacity overrides speed fuel_price) deadline (all r))) \<and>
         (\<exists>r. optimize float origin destination capacity speed deadline fuel_price overrides_raw = Inr r \<and>
              deadline_filtered (enumerate_simple_paths ADJ origin destination 6)
                (\<lambda>p. path_cost_and_time p capacity (parse_overrides float overrides_raw) speed fuel_price)
                deadline (all r))"
proof (intro conjI impI)
  assume "origin \<in> dom PORTS \<and> destination \<in> dom PORTS"
  then have "api_optimize origin destination capacity speed deadline fuel_price overrides =
    Inr \<lparr>best = pick_best (sort_key cost
                   (feasible origin destination capacity speed deadline fuel_price overrides)),
         all = sort_key cost
                   (feasible origin destination capacity speed deadline fuel_price overrides)\<rparr>"
    using assms by (simp add: api_optimize_closed)
  with feasible_filtered [OF assms, of origin destination capacity overrides fuel_price deadline]
  show "\<exists>r. api_optimize origin destination capacity speed deadline fuel_price overrides = Inr r \<and>
      deadline_filtered (enumerate_simple_paths ADJ origin destination 6)
        (\<lambda>p. path_cost_and_time p capacity overrides speed fuel_price) deadline (all r)"
    by simp
next
  from optimize_closed [OF assms, of float origin destination capacity deadline fuel_price overrides_raw]
    feasible_filtered [OF assms, of origin destination capacity "parse_overrides float overrides_raw"
      fuel_price deadline]
  show "\<exists>r. optimize float origin destination capacity speed deadline fuel_price overrides_raw = Inr r \<and>
      deadline_filtered (enumerate_simple_paths ADJ origin destination 6)
        (\<lambda>p. path_cost_and_time p capacity (parse_overrides float overrides_raw) speed fuel_price)
        deadline (all r)"
    by simp
qed

theorem deadline_filter_exact_witness:
  "(\<exists>r. api_optimize ''PTY'' ''LAX'' 1000 20 (10 ^ 9) (12 / 100) Map.empty = Inr r \<and>
       all r \<noteq> [] \<and>
       deadline_filtered (enumerate_simple_paths ADJ ''PTY'' ''LAX'' 6)
         (\<lambda>p. path_cost_and_time p 1000 Map.empty 20 (12 / 100)) (10 ^ 9) (all r)) \<and>
   (\<exists>r. optimize float_decimal ''PTY'' ''LAX'' 1000 20 (10 ^ 9) (12 / 100) [] = Inr r \<and>
       all r \<noteq> [] \<and>
       deadline_filtered (enumerate_simple_paths ADJ ''PTY'' ''LAX'' 6)
         (\<lambda>p. path_cost_and_time p 1000 Map.empty 20 (12 / 100)) (10 ^ 9) (all r))"
proof -
  have s: "(20::real) \<noteq> 0" by simp
  have k: "''PTY'' \<in> dom PORTS \<and> ''LAX'' \<in> dom PORTS" using PTY_known by simp
  have e: "parse_overrides float_decimal [] = Map.empty"
    by (simp add: parse_overrides_def strip_def)
  have n: "sort_key cost (feasible ''PTY'' ''LAX'' 1000 20 (10 ^ 9) (12 / 100) Map.empty) \<noteq> []"
    using PTY_LAX_feasible by (metis empty_iff empty_set set_sort)
  from deadline_filter_exact [OF s, of "''PTY''" "''LAX''" 1000 "10 ^ 9" "12 / 100" Map.empty
      float_decimal "[]"] k
  have "(\<exists>r. api_optimize ''PTY'' ''LAX'' 1000 20 (10 ^ 9) (12 / 100) Map.empty = Inr r \<and>
       deadline_filtered (enumerate_simple_paths ADJ ''PTY'' ''LAX'' 6)
         (\<lambda>p. path_cost_and_time p 1000 Map.empty 20 (12 / 100)) (10 ^ 9) (all r)) \<and>
   (\<exists>r. optimize float_decimal ''PTY'' ''LAX'' 1000 20 (10 ^ 9) (12 / 100) [] = Inr r \<and>
       deadline_filtered (enumerate_simple_paths ADJ ''PTY'' ''LAX'' 6)
         (\<lambda>p. path_cost_and_time p 1000 Map.empty 20 (12 / 100)) (10 ^ 9) (all r))"
    by (simp only: e)
  moreover have "all r \<noteq> []"
    if "api_optimize ''PTY'' ''LAX'' 1000 20 (10 ^ 9) (12 / 100) Map.empty = Inr r" for r
    using that n unfolding api_optimize_closed [OF k [THEN conjunct1] k [THEN conjunct2] s] by auto
  moreover have "all r \<noteq> []"
    if "optimize float_decimal ''PTY'' ''LAX'' 1000 20 (10 ^ 9) (12 / 100) [] = Inr r" for r
    using that n unfolding optimize_closed [OF s] e by auto
  ultimately show ?thesis by blast
qed

text \<open>
  Claim C5. For known port codes and a speed other than 0, the JSON endpoint returns; the
  candidate list it returns holds the feasible candidates (it is the deadline filter of the
  enumerated paths) sorted in ascending order of cost; when the list is empty the best
  candidate is absent, and otherwise it is a candidate of the list whose cost is at most the
  cost of every candidate of the list.
\<close>

theorem best_is_cheapest:
  assumes "origin \<in> dom PORTS" "destination \<in> dom PORTS" "speed \<noteq> 0"
  shows "\<exists>r. api_optimize origin destination capacity speed deadline fuel_price overrides = Inr r \<and>
           deadline_filtered (enumerate_simple_paths ADJ origin destination 6)
             (\<lambda>p. path_cost_and_time p capacity overrides speed fuel_price) deadline (all r) \<and>
           sorted (map cost (all r)) \<and>
           (all r = [] \<longrightarrow> best r = None) \<and>
           (all r \<noteq> [] \<longrightarrow>
              (\<exists>b. best r = Some b \<and> b \<in> set (all r) \<and> (\<forall>c \<in> set (all r). cost b \<le> cost c)))"
proof -
  let ?all = "sort_key cost (feasible origin destination capacity speed deadline fuel_price overrides)"
  have f: "deadline_filtered (enumerate_simple_paths ADJ origin destination 6)
      (\<lambda>p. path_cost_and_time p capacity overrides speed fuel_price) deadline ?all"
    using assms(3) by (rule feasible_filtered)
  have "sorted (map cost ?all)" by (rule sorted_sort_key)
  from f this pick_best_least [OF this] api_optimize_closed [OF assms] show ?thesis by simp
qed

theorem best_is_cheapest_witness:
  "(\<exists>r. api_optimize ''PTY'' ''LAX'' 1000 20 (10 ^ 9) (12 / 100) Map.empty = Inr r \<and>
       all r \<noteq> [] \<and> sorted (map cost (all r)) \<and>
       (\<exists>b. best r = Some b \<and> b \<in> set (all r) \<and> (\<forall>c \<in> set (all r). cost b \<le> cost c))) \<and>
   api_optimize ''HKG'' ''HKG'' 1000 20 (10 ^ 9) (12 / 100) Map.empty = Inr \<lparr>best = None, all = []\<rparr>"
proof -
  have s: "(20::real) \<noteq> 0" by simp
  have k: "''PTY'' \<in> dom PORTS" "''LAX'' \<in> dom PORTS" using PTY_known by simp_all
  have h: "''HKG'' \<in> dom PORTS" unfolding dom_PORTS by (simp add: PORTS_items_def)
  have n: "sort_key cost (feasible ''PTY'' ''LAX'' 1000 20 (10 ^ 9) (12 / 100) Map.empty) \<noteq> []"
    using PTY_LAX_feasible by (metis empty_iff empty_set set_sort)
  have a: "all r \<noteq> []"
    if "api_optimize ''PTY'' ''LAX'' 1000 20 (10 ^ 9) (12 / 100) Map.empty = Inr r" for r
    using that n unfolding api_optimize_closed [OF k s] by auto
  from best_is_cheapest [OF k s, of 1000 "10 ^ 9" "12 / 100" Map.empty] a
  have 1: "\<exists>r. api_optimize ''PTY'' ''LAX'' 1000 20 (10 ^ 9) (12 / 100) Map.empty = Inr r \<and>
       all r \<noteq> [] \<and> sorted (map cost (all r)) \<and>
       (\<exists>b. best r = Some b \<and> b \<in> set (all r) \<and> (\<forall>c \<in> set (all r). cost b \<le> cost c))"
    by blast
  from best_is_cheapest [OF h h s, of 1000 "10 ^ 9" "12 / 100" Map.empty]
  obtain r where r: "api_optimize ''HKG'' ''HKG'' 1000 20 (10 ^ 9) (12 / 100) Map.empty = Inr r"
    "all r = [] \<longrightarrow> best r = None" by blast
  have "all r = []"
    using r(1) unfolding api_optimize_closed [OF h h s]
    by (auto simp: feasible_def esp_source_is_dest)
  with r have 2: "api_optimize ''HKG'' ''HKG'' 1000 20 (10 ^ 9) (12 / 100) Map.empty
      = Inr \<lparr>best = None, all = []\<rparr>"
    by (cases r) simp
  from 1 2 show ?thesis by (rule conjI)
qed

section \<open>Properties of the overrides parser\<close>

lemma overrides_loop_prefix:
  assumes "\<forall>part \<in> set pre. parse_part float part \<noteq> None" "parse_part float bad = None"
  shows "overrides_loop float (pre @ bad # post) overrides =
    overrides ++ map_of (rev (map (\<lambda>part. the (parse_part float part)) pre))"
  using assms(1)
proof (induction pre arbitrary: overrides)
  case Nil
  then show ?case by (simp add: assms(2))
next
  case (Cons part pre)
  then obtain k v where kv: "parse_part float part = Some (k, v)" by auto
  from Cons.prems have "\<forall>part \<in> set pre. parse_part float part \<noteq> None" by simp
  then have ih: "overrides_loop float (pre @ bad # post) (overrides(k \<mapsto> v)) =
      overrides(k \<mapsto> v) ++ map_of (rev (map (\<lambda>part. the (parse_part float part)) pre))"
    by (rule Cons.IH)
  have m: "overrides(k \<mapsto> v) ++ m = overrides ++ ([k \<mapsto> v] ++ m)" for m
    by (rule ext) (simp add: map_add_def split: option.splits)
  have "overrides_loop float ((part # pre) @ bad # post) overrides =
      overrides_loop float (pre @ bad # post) (overrides(k \<mapsto> v))"
    using kv by simp
  also note ih
  also have "overrides(k \<mapsto> v) ++ map_of (rev (map (\<lambda>part. the (parse_part float part)) pre))
      = overrides ++ map_of (rev (map (\<lambda>part. the (parse_part float part)) (part # pre)))"
    unfolding m using kv by simp
  finally show ?case .
qed

lemmas parse_simps = parse_overrides_def parse_part_def strip_def isspace_def upper_def
  float_decimal_def unsigned_decimal_def signed_part_def mantissa_def opt_digit_part_def
  digit_part_def is_digit_def digit_val_def float_space_def is_e_def

text \<open>
  Claim C2, as stated: a malformed token is skipped and every other well-formed token of
  the string is still parsed and applied. It fails: in \<open>HKG:600,bad,SIN:700\<close> the token
  \<open>SIN:700\<close> is well formed, yet the parsed overrides have no entry for SIN.
\<close>

theorem parse_overrides_loses_later_entries:
  "parse_part float_decimal ''SIN:700'' = Some (''SIN'', 700) \<and>
   parse_overrides float_decimal ''HKG:600,bad,SIN:700'' ''SIN'' = None \<and>
   parse_overrides float_decimal ''HKG:600,bad,SIN:700'' ''HKG'' = Some 600"
  by (simp add: parse_simps)

text \<open>
  Claim C2, amended. Parsing never aborts the request, and it stops at the first malformed
  token: when the tokens before it are well formed, the parsed overrides are exactly their
  entries (a later entry for the same code replacing an earlier one); the malformed token
  and every token after it are ignored.
\<close>

theorem parse_overrides_until_malformed:
  assumes "split CHR '','' (strip raw) = pre @ bad # post"
    and "\<forall>part \<in> set pre. parse_part float part \<noteq> None"
    and "parse_part float bad = None"
  shows "parse_overrides float raw = map_of (rev (map (\<lambda>part. the (parse_part float part)) pre))"
proof (cases "strip raw = []")
  case True
  with assms(1) have "pre = []" by (cases pre) simp_all
  with True show ?thesis by (simp add: parse_overrides_def)
next
  case False
  then show ?thesis
    by (simp add: parse_overrides_def assms(1) overrides_loop_prefix [OF assms(2,3)])
qed

theorem parse_overrides_until_malformed_witness:
  "split CHR '','' (strip ''HKG:600,bad,SIN:700'') = [''HKG:600''] @ ''bad'' # [''SIN:700''] \<and>
   parse_part float_decimal ''HKG:600'' = Some (''HKG'', 600) \<and>
   parse_part float_decimal ''bad'' = None \<and>
   parse_overrides float_decimal ''HKG:600,bad,SIN:700'' = map_of [(''HKG'', 600)]"
proof -
  have 1: "split CHR '','' (strip ''HKG:600,bad,SIN:700'') = [''HKG:600''] @ ''bad'' # [''SIN:700'']"
    by (simp add: strip_def isspace_def)
  have 2: "parse_part float_decimal ''HKG:600'' = Some (''HKG'', 600)"
    by (simp add: parse_simps)
  then have 3: "\<forall>part \<in> set [''HKG:600'']. parse_part float_decimal part \<noteq> None" by simp
  have 4: "parse_part float_decimal ''bad'' = None" by (simp add: parse_part_def)
  from parse_overrides_until_malformed [OF 1 3 4] 2
  have "parse_overrides float_decimal ''HKG:600,bad,SIN:700'' = map_of [(''HKG'', 600)]" by simp
  with 1 2 4 show ?thesis by (intro conjI)
qed

end
